theory Spec2Isabelle
  imports Complex_Main "HOL-Library.Word" "HOL-Library.AList"
begin

section \<open>Python and NumPy primitives used by the engine\<close>

text \<open>
  The engine is the class \<open>GameOfLife\<close> of \<open>wow.py\<close>. Python integers are unbounded
  (\<open>int\<close>), the cells are \<open>numpy.uint8\<close> (\<open>8 word\<close>), and every exception the code can
  raise is a value of \<open>exn\<close>.
\<close>

datatype exn = ZeroDivisionError | KeyError | IndexError | ValueError | OverflowError

type_synonym uint8 = "8 word"

text \<open>
  A two-dimensional \<open>numpy.ndarray\<close>: its shape (rows, columns) and its rows. The shape
  is kept beside the data because an array of shape \<open>(0, w)\<close> has no row to read \<open>w\<close> from.
\<close>

datatype 'a ndarray = NDArray (nrows: nat) (ncols: nat) (cells: "'a list list")

definition wf_array :: "'a ndarray \<Rightarrow> bool" where
  "wf_array a \<longleftrightarrow>
     length (cells a) = nrows a \<and> list_all (\<lambda>r. length r = ncols a) (cells a)"

text \<open>\<open>np.zeros((h, w), dtype=np.uint8)\<close>: a negative dimension raises \<open>ValueError\<close>.\<close>

definition np_zeros :: "int \<Rightarrow> int \<Rightarrow> exn + uint8 ndarray" where
  "np_zeros h w =
     (if h < 0 \<or> w < 0 then Inl ValueError
      else Inr (NDArray (nat h) (nat w) (replicate (nat h) (replicate (nat w) 0))))"

text \<open>
  An integer index along an axis of length \<open>n\<close>: \<open>-n \<le> i < 0\<close> counts from the end,
  anything outside \<open>[-n, n)\<close> raises \<open>IndexError\<close>.
\<close>

definition np_index :: "nat \<Rightarrow> int \<Rightarrow> exn + nat" where
  "np_index n i =
     (if 0 \<le> i \<and> i < int n then Inr (nat i)
      else if - int n \<le> i \<and> i < 0 then Inr (nat (i + int n))
      else Inl IndexError)"

text \<open>\<open>a[y, x]\<close> read and \<open>a[y, x] = v\<close> written.\<close>

definition np_get :: "'a ndarray \<Rightarrow> int \<Rightarrow> int \<Rightarrow> exn + 'a" where
  "np_get a y x =
     (case np_index (nrows a) y of
        Inl e \<Rightarrow> Inl e
      | Inr j \<Rightarrow>
          (case np_index (ncols a) x of
             Inl e \<Rightarrow> Inl e
           | Inr i \<Rightarrow> Inr (cells a ! j ! i)))"

definition np_set :: "'a ndarray \<Rightarrow> int \<Rightarrow> int \<Rightarrow> 'a \<Rightarrow> exn + 'a ndarray" where
  "np_set a y x v =
     (case np_index (nrows a) y of
        Inl e \<Rightarrow> Inl e
      | Inr j \<Rightarrow>
          (case np_index (ncols a) x of
             Inl e \<Rightarrow> Inl e
           | Inr i \<Rightarrow> Inr (NDArray (nrows a) (ncols a) ((cells a)[j := (cells a ! j)[i := v]]))))"

text \<open>
  \<open>np.sum(a)\<close> of a \<open>uint8\<close> array accumulates in 64 bits; an array that fits in memory
  cannot wrap that accumulator, so the sum is the exact one.
\<close>

definition np_sum :: "uint8 ndarray \<Rightarrow> nat" where
  "np_sum a = sum_list (map (\<lambda>r. sum_list (map unat r)) (cells a))"

text \<open>
  \<open>np.where(a > 0)\<close>: the (row, column) index pairs of the non-zero cells, row-major.
\<close>

definition np_where_pos :: "uint8 ndarray \<Rightarrow> (nat \<times> nat) list" where
  "np_where_pos a =
     [(j, i). j \<leftarrow> [0..<nrows a], i \<leftarrow> [0..<ncols a], cells a ! j ! i > 0]"

text \<open>Python's \<open>%\<close>: floored, as \<open>mod\<close> on \<open>int\<close> is; a zero divisor raises.\<close>

definition py_mod :: "int \<Rightarrow> int \<Rightarrow> exn + int" where
  "py_mod a b = (if b = 0 then Inl ZeroDivisionError else Inr (a mod b))"

text \<open>
  A \<open>dict\<close> with integer keys is an association list in insertion order (the order
  \<open>keys()\<close> and \<open>values()\<close> iterate in). \<open>d[k] += 1\<close> raises \<open>KeyError\<close> on a missing key.
\<close>

type_synonym counts = "(int \<times> int) list"

definition dict_incr :: "counts \<Rightarrow> int \<Rightarrow> exn + counts" where
  "dict_incr d k =
     (case map_of d k of
        None \<Rightarrow> Inl KeyError
      | Some v \<Rightarrow> Inr (AList.update k (v + 1) d))"

definition dict_get :: "counts \<Rightarrow> int \<Rightarrow> int \<Rightarrow> int" where
  "dict_get d k dflt = (case map_of d k of None \<Rightarrow> dflt | Some v \<Rightarrow> v)"

definition dict_values :: "counts \<Rightarrow> int list" where
  "dict_values d = map snd d"

definition dict_keys :: "counts \<Rightarrow> int list" where
  "dict_keys d = map fst d"

text \<open>
  \<open>max(xs, key=f)\<close> on a non-empty sequence: the first element whose key is maximal (a
  later element replaces the best one only when its key is strictly greater).
\<close>

definition py_max_key :: "('a \<Rightarrow> int) \<Rightarrow> 'a \<Rightarrow> 'a list \<Rightarrow> 'a" where
  "py_max_key f k ks = fold (\<lambda>c best. if f c > f best then c else best) ks k"

text \<open>Running a loop body that may raise over a list, left to right.\<close>

fun for_each :: "('a \<Rightarrow> 's \<Rightarrow> exn + 's) \<Rightarrow> 'a list \<Rightarrow> 's \<Rightarrow> exn + 's" where
  "for_each body [] s = Inr s"
| "for_each body (a # as) s =
     (case body a s of Inl e \<Rightarrow> Inl e | Inr s' \<Rightarrow> for_each body as s')"

subsection \<open>The process-wide random source\<close>

text \<open>
  \<open>np.random\<close> is a global generator. Its state is the stream of values it is going to
  return and the number of draws made so far: \<open>np.random.random()\<close> returns the next float
  of \<open>[0, 1)\<close>, \<open>np.random.randint(1, 5)\<close> the next integer of \<open>{1, 2, 3, 4}\<close>.
\<close>

record rng =
  floats :: "nat \<Rightarrow> real"
  integers :: "nat \<Rightarrow> nat"
  drawn :: nat

definition rng_ok :: "rng \<Rightarrow> bool" where
  "rng_ok r \<longleftrightarrow> (\<forall>n. 0 \<le> floats r n \<and> floats r n < 1)"

definition random :: "rng \<Rightarrow> real \<times> rng" where
  "random r = (floats r (drawn r), r\<lparr>drawn := drawn r + 1\<rparr>)"

definition randint_1_5 :: "rng \<Rightarrow> int \<times> rng" where
  "randint_1_5 r = (1 + int (integers r (drawn r) mod 4), r\<lparr>drawn := drawn r + 1\<rparr>)"

section \<open>The engine state\<close>

text \<open>
  The fields of \<open>GameOfLife.__init__\<close>, in its order (\<open>color_names\<close>, a constant table
  of display names, is left out). \<open>active_bounds\<close> is the list
  \<open>[min_x, max_x, min_y, max_y]\<close>.
\<close>

record game =
  initial_width :: int
  initial_height :: int
  max_width :: int
  max_height :: int
  width :: int
  height :: int
  grid :: "uint8 ndarray"
  running :: bool
  active_bounds :: "int \<times> int \<times> int \<times> int"
  bounds_margin :: int
  chaos_mode :: bool
  chaos_probability :: real
  rule_randomness :: real

definition init :: "int \<Rightarrow> int \<Rightarrow> int \<Rightarrow> int \<Rightarrow> exn + game" where
  "init w h mw mh =
     (case np_zeros h w of
        Inl e \<Rightarrow> Inl e
      | Inr g \<Rightarrow>
          Inr \<lparr>initial_width = w, initial_height = h, max_width = mw, max_height = mh,
               width = w, height = h, grid = g, running = False,
               active_bounds = (0, w, 0, h), bounds_margin = 5,
               chaos_mode = False, chaos_probability = 0.3, rule_randomness = 0.1\<rparr>)"

text \<open>
  The state the methods keep: the grid is a well-formed array whose shape is
  \<open>(height, width)\<close>.
\<close>

definition wf_game :: "game \<Rightarrow> bool" where
  "wf_game st \<longleftrightarrow>
     wf_array (grid st) \<and> int (nrows (grid st)) = height st \<and> int (ncols (grid st)) = width st"

subsection \<open>\<open>update_active_bounds\<close>\<close>

definition update_active_bounds :: "game \<Rightarrow> game" where
  "update_active_bounds st =
     (if np_sum (grid st) = 0 then
        (let center_x = width st div 2; center_y = height st div 2
         in st\<lparr>active_bounds := (center_x - 1, center_x + 1, center_y - 1, center_y + 1)\<rparr>)
      else
        (let alive_cells = np_where_pos (grid st)
         in if length alive_cells = 0 then st
            else
              (let min_y = int (Min (set (map fst alive_cells)));
                   max_y = int (Max (set (map fst alive_cells)));
                   min_x = int (Min (set (map snd alive_cells)));
                   max_x = int (Max (set (map snd alive_cells)))
               in st\<lparr>active_bounds :=
                      (max 0 (min_x - bounds_margin st),
                       min (width st) (max_x + bounds_margin st + 1),
                       max 0 (min_y - bounds_margin st),
                       min (height st) (max_y + bounds_margin st + 1))\<rparr>)))"

subsection \<open>\<open>set_chaos_mode\<close>, \<open>set_max_size\<close>, \<open>set_grid\<close>, \<open>clear\<close>\<close>

definition set_chaos_mode :: "game \<Rightarrow> bool \<Rightarrow> real \<Rightarrow> real \<Rightarrow> game" where
  "set_chaos_mode st enabled chaos_prob random_prob =
     st\<lparr>chaos_mode := enabled, chaos_probability := chaos_prob,
        rule_randomness := random_prob\<rparr>"

definition set_max_size :: "game \<Rightarrow> int \<Rightarrow> int \<Rightarrow> game" where
  "set_max_size st mw mh = st\<lparr>max_width := mw, max_height := mh\<rparr>"

text \<open>
  \<open>new_grid.astype(np.uint8)\<close> of an integer array keeps the low eight bits of every
  entry (\<open>word_of_int\<close>); nothing is validated or clamped. The width and the height are
  then read from the shape of the argument. The patterns are arrays of whole numbers (the
  seed generators return integer arrays), so the argument is an integer array here.
\<close>

definition astype_uint8 :: "int ndarray \<Rightarrow> uint8 ndarray" where
  "astype_uint8 a = NDArray (nrows a) (ncols a) (map (map word_of_int) (cells a))"

definition set_grid :: "game \<Rightarrow> int ndarray \<Rightarrow> game" where
  "set_grid st new_grid =
     update_active_bounds
       (st\<lparr>grid := astype_uint8 new_grid,
           height := int (nrows new_grid), width := int (ncols new_grid)\<rparr>)"

definition clear :: "game \<Rightarrow> exn + game" where
  "clear st =
     (case np_zeros (height st) (width st) of
        Inl e \<Rightarrow> Inl e
      | Inr g \<Rightarrow>
          (let center_x = width st div 2; center_y = height st div 2
           in Inr (st\<lparr>grid := g,
                      active_bounds :=
                        (center_x - 1, center_x + 1, center_y - 1, center_y + 1)\<rparr>)))"

subsection \<open>\<open>get_neighbors_by_color\<close> and \<open>get_dominant_color\<close>\<close>

text \<open>
  The eight offsets, in the order the two nested loops over \<open>[-1, 0, 1]\<close> visit them.
\<close>

definition neighbor_offsets :: "(int \<times> int) list" where
  "neighbor_offsets =
     [(dx, dy). dx \<leftarrow> [-1, 0, 1], dy \<leftarrow> [-1, 0, 1], \<not> (dx = 0 \<and> dy = 0)]"

text \<open>
  The loop body: wrap the coordinates, read the neighbour, and count it under its colour
  when it is alive. The dictionary is keyed by the Python integers 1 to 4; a \<open>uint8\<close> key
  hashes and compares as its value, so any other non-zero cell raises \<open>KeyError\<close>.
\<close>

definition count_neighbor ::
  "game \<Rightarrow> int \<Rightarrow> int \<Rightarrow> int \<times> int \<Rightarrow> counts \<times> uint8 list \<Rightarrow> exn + counts \<times> uint8 list" where
  "count_neighbor st x y d acc =
     (case py_mod (x + fst d) (width st) of
        Inl e \<Rightarrow> Inl e
      | Inr nx \<Rightarrow>
          (case py_mod (y + snd d) (height st) of
             Inl e \<Rightarrow> Inl e
           | Inr ny \<Rightarrow>
               (case np_get (grid st) ny nx of
                  Inl e \<Rightarrow> Inl e
                | Inr neighbor_color \<Rightarrow>
                    if neighbor_color > 0 then
                      (case dict_incr (fst acc) (uint neighbor_color) of
                         Inl e \<Rightarrow> Inl e
                       | Inr cc \<Rightarrow> Inr (cc, snd acc @ [neighbor_color]))
                    else Inr acc)))"

definition get_neighbors_by_color ::
  "game \<Rightarrow> int \<Rightarrow> int \<Rightarrow> exn + counts \<times> int \<times> uint8 list" where
  "get_neighbors_by_color st x y =
     (case for_each (count_neighbor st x y) neighbor_offsets ([(1, 0), (2, 0), (3, 0), (4, 0)], []) of
        Inl e \<Rightarrow> Inl e
      | Inr (color_counts, neighbors) \<Rightarrow>
          Inr (color_counts, sum_list (dict_values color_counts), neighbors))"

text \<open>
  \<open>get_dominant_color\<close> takes a dictionary or a NumPy array of counts indexed by colour
  (\<open>isinstance(color_counts, dict)\<close>). An empty dictionary sums to zero, so \<open>max\<close> never
  sees an empty sequence; \<open>np.argmax\<close> of an empty array raises \<open>ValueError\<close>.
\<close>

datatype color_counts = Dict counts | Array "int list"

definition np_argmax :: "int list \<Rightarrow> nat" where
  "np_argmax xs = py_max_key (\<lambda>i. xs ! i) 0 [1..<length xs]"

definition get_dominant_color :: "color_counts \<Rightarrow> exn + int" where
  "get_dominant_color cc =
     (case cc of
        Dict d \<Rightarrow>
          if sum_list (dict_values d) = 0 then Inr 1
          else
            (case dict_keys d of
               [] \<Rightarrow> Inl ValueError
             | k # ks \<Rightarrow> Inr (py_max_key (\<lambda>k. the (map_of d k)) k ks))
      | Array a \<Rightarrow>
          if sum_list (drop 1 a) = 0 then Inr 1
          else if drop 1 a = [] then Inl ValueError
          else Inr (int (np_argmax (drop 1 a)) + 1))"

text \<open>The variant of \<open>scrips3.py\<close> (and \<open>script2.py\<close>): dictionaries only.\<close>

definition get_dominant_color_v3 :: "counts \<Rightarrow> exn + int" where
  "get_dominant_color_v3 d =
     (if sum_list (dict_values d) = 0 then Inr 1
      else
        (case dict_keys d of
           [] \<Rightarrow> Inl ValueError
         | k # ks \<Rightarrow> Inr (py_max_key (\<lambda>k. the (map_of d k)) k ks)))"

subsection \<open>The rule tables\<close>

text \<open>
  The results are Python values: a \<open>uint8\<close> scalar where the cell keeps its colour
  (\<open>uint current_color\<close>), an \<open>int\<close> otherwise.
\<close>

definition apply_original_conway_rules :: "int \<Rightarrow> int \<Rightarrow> uint8 \<Rightarrow> int \<Rightarrow> int \<Rightarrow> int" where
  "apply_original_conway_rules x y current_color total_neighbors dominant_color =
     (if current_color > 0 then
        (if total_neighbors \<in> {2, 3} then uint current_color else 0)
      else
        (if total_neighbors = 3 then (if dominant_color > 0 then dominant_color else 1)
         else 0))"

text \<open>
  \<open>max(color_counts.values()) if color_counts and any(color_counts.values()) else 0\<close>.
\<close>

definition max_color_count :: "counts \<Rightarrow> int" where
  "max_color_count d =
     (if d \<noteq> [] \<and> list_ex (\<lambda>v. v \<noteq> 0) (dict_values d)
      then fold max (tl (dict_values d)) (hd (dict_values d)) else 0)"

text \<open>
  The custom rules draw from the random source for a living cell with five or more
  neighbours, and only then.
\<close>

definition apply_custom_color_rules ::
  "int \<Rightarrow> int \<Rightarrow> uint8 \<Rightarrow> counts \<Rightarrow> int \<Rightarrow> int \<Rightarrow> rng \<Rightarrow> int \<times> rng" where
  "apply_custom_color_rules x y current_color color_counts total_neighbors dominant_color r =
     (if current_color > 0 then
        (let (dies, r') =
               (if total_neighbors \<ge> 5
                then (let (u, r1) = random r in (u < 0.6, r1))
                else (False, r))
         in if dies then (0, r')
            else if total_neighbors \<in> {2, 3} then (uint current_color, r')
            else if total_neighbors \<ge> 4 then
              (if max_color_count color_counts \<ge> 3
               then (if dominant_color > 0 then dominant_color else uint current_color, r')
               else (0, r'))
            else if total_neighbors = 1 then
              (if dict_get color_counts (uint current_color) 0 = 1
               then (uint current_color, r')
               else (0, r'))
            else (0, r'))
      else
        (if total_neighbors = 3 then (if dominant_color > 0 then dominant_color else 1, r)
         else (0, r)))"

text \<open>
  The random-outcome branch of \<open>update\<close>, written inline there: a first draw chooses the
  outcome of a living cell, a second one the new colour.
\<close>

definition random_outcome :: "uint8 \<Rightarrow> rng \<Rightarrow> int \<times> rng" where
  "random_outcome current_color r =
     (if current_color > 0 then
        (let (rand_outcome, r1) = random r
         in if rand_outcome < 0.4 then (0, r1)
            else if rand_outcome < 0.7 then (uint current_color, r1)
            else randint_1_5 r1)
      else
        (let (u, r1) = random r
         in if u < 0.1 then randint_1_5 r1 else (0, r1)))"

subsection \<open>\<open>expand_grid_if_needed\<close>\<close>

text \<open>
  A slice \<open>start:stop\<close> of an axis of length \<open>n\<close>: the first index and the number of
  items (negative bounds count from the end, and both are cut to the axis).
\<close>

definition py_slice :: "nat \<Rightarrow> int \<Rightarrow> int \<Rightarrow> nat \<times> nat" where
  "py_slice n start stop =
     (let s = (if start < 0 then max (start + int n) 0 else min start (int n));
          e = (if stop < 0 then max (stop + int n) 0 else min stop (int n))
      in (nat s, nat (e - s)))"

text \<open>
  \<open>a[y0:y1, x0:x1] = b\<close>: the block takes the values of \<open>b\<close>, broadcast along an axis
  where \<open>b\<close> has length one; any other shape mismatch raises \<open>ValueError\<close>.
\<close>

definition np_set_block ::
  "'a ndarray \<Rightarrow> int \<times> int \<Rightarrow> int \<times> int \<Rightarrow> 'a ndarray \<Rightarrow> exn + 'a ndarray" where
  "np_set_block a ys xs b =
     (let (j0, rh) = py_slice (nrows a) (fst ys) (snd ys);
          (i0, rw) = py_slice (ncols a) (fst xs) (snd xs)
      in if (nrows b = rh \<or> nrows b = 1) \<and> (ncols b = rw \<or> ncols b = 1) then
           Inr (NDArray (nrows a) (ncols a)
                  (map (\<lambda>j. if j0 \<le> j \<and> j < j0 + rh then
                               map (\<lambda>i. if i0 \<le> i \<and> i < i0 + rw then
                                           cells b ! (if nrows b = 1 then 0 else j - j0)
                                                   ! (if ncols b = 1 then 0 else i - i0)
                                         else cells a ! j ! i)
                                   [0..<ncols a]
                             else cells a ! j)
                       [0..<nrows a]))
         else Inl ValueError)"

definition expand_grid_if_needed :: "game \<Rightarrow> int \<Rightarrow> int \<Rightarrow> exn + game \<times> bool" where
  "expand_grid_if_needed st target_width target_height =
     (let new_width = min (max (width st) target_width) (max_width st);
          new_height = min (max (height st) target_height) (max_height st)
      in if new_width \<noteq> width st \<or> new_height \<noteq> height st then
           (case np_zeros new_height new_width of
              Inl e \<Rightarrow> Inl e
            | Inr new_grid \<Rightarrow>
                (let offset_y = (new_height - height st) div 2;
                     offset_x = (new_width - width st) div 2
                 in case np_set_block new_grid (offset_y, offset_y + height st)
                           (offset_x, offset_x + width st) (grid st) of
                      Inl e \<Rightarrow> Inl e
                    | Inr g \<Rightarrow>
                        (case active_bounds st of
                           (b0, b1, b2, b3) \<Rightarrow>
                             Inr (st\<lparr>grid := g, width := new_width, height := new_height,
                                     active_bounds :=
                                       (b0 + offset_x, b1 + offset_x,
                                        b2 + offset_y, b3 + offset_y)\<rparr>,
                                  True))))
         else Inr (st, False))"

subsection \<open>\<open>update\<close>\<close>

text \<open>
  The choice of the rule set for one cell, as the body of the loop makes it: under chaos
  a first draw against \<open>rule_randomness\<close>, then a second one against
  \<open>chaos_probability\<close>; without chaos the custom rules.
\<close>

definition apply_rules ::
  "game \<Rightarrow> int \<Rightarrow> int \<Rightarrow> uint8 \<Rightarrow> counts \<Rightarrow> int \<Rightarrow> int \<Rightarrow> rng \<Rightarrow> int \<times> rng" where
  "apply_rules st x y current_color color_counts total_neighbors dominant_color r =
     (if chaos_mode st then
        (let (u, r1) = random r
         in if u < rule_randomness st then random_outcome current_color r1
            else
              (let (v, r2) = random r1
               in if v < chaos_probability st then
                    apply_custom_color_rules x y current_color color_counts
                      total_neighbors dominant_color r2
                  else
                    (apply_original_conway_rules x y current_color
                       total_neighbors dominant_color, r2)))
      else
        apply_custom_color_rules x y current_color color_counts
          total_neighbors dominant_color r)"

text \<open>
  The body of the double loop for the cell \<open>(x, y)\<close>: it reads the old grid and writes the
  copy. Every result is a colour or a \<open>uint8\<close>, so the store never truncates.
\<close>

definition update_cell ::
  "game \<Rightarrow> int \<times> int \<Rightarrow> uint8 ndarray \<times> rng \<Rightarrow> exn + uint8 ndarray \<times> rng" where
  "update_cell st p acc =
     (case get_neighbors_by_color st (fst p) (snd p) of
        Inl e \<Rightarrow> Inl e
      | Inr (color_counts, total_neighbors, neighbors) \<Rightarrow>
          (case np_get (grid st) (snd p) (fst p) of
             Inl e \<Rightarrow> Inl e
           | Inr current_color \<Rightarrow>
               (case get_dominant_color (Dict color_counts) of
                  Inl e \<Rightarrow> Inl e
                | Inr dominant_color \<Rightarrow>
                    (let (result, r') =
                           apply_rules st (fst p) (snd p) current_color color_counts
                             total_neighbors dominant_color (snd acc)
                     in case np_set (fst acc) (snd p) (fst p) (word_of_int result) of
                          Inl e \<Rightarrow> Inl e
                        | Inr g \<Rightarrow> Inr (g, r')))))"

text \<open>The cells of the active rectangle, row by row.\<close>

definition scan_cells :: "int \<times> int \<times> int \<times> int \<Rightarrow> (int \<times> int) list" where
  "scan_cells b =
     (case b of
        (min_x, max_x, min_y, max_y) \<Rightarrow>
          [(x, y). y \<leftarrow> [min_y..max_y - 1], x \<leftarrow> [min_x..max_x - 1]])"

definition update :: "game \<Rightarrow> rng \<Rightarrow> exn + game \<times> rng" where
  "update st0 r =
     (let st = update_active_bounds st0
      in case active_bounds st of
           (min_x, max_x, min_y, max_y) \<Rightarrow>
             (let active_width = max_x - min_x; active_height = max_y - min_y
              in if active_width \<le> 0 \<or> active_height \<le> 0 then Inr (st, r)
                 else
                   (case for_each (update_cell st) (scan_cells (active_bounds st))
                           (grid st, r) of
                      Inl e \<Rightarrow> Inl e
                    | Inr (new_grid, r') \<Rightarrow> Inr (st\<lparr>grid := new_grid\<rparr>, r'))))"

section \<open>The rule tables as the specification words them\<close>

text \<open>
  The neighbour tally of the specification: one count for each of Red, Blue, Green and
  Yellow. \<open>tally_of\<close> reads the count of a colour (no cell of another value is counted),
  \<open>as_dict\<close> is the dictionary \<open>get_neighbors_by_color\<close> builds for it.
\<close>

record tally =
  red :: int
  blue :: int
  green :: int
  yellow :: int

definition tally_of :: "tally \<Rightarrow> int \<Rightarrow> int" where
  "tally_of t k =
     (if k = 1 then red t else if k = 2 then blue t
      else if k = 3 then green t else if k = 4 then yellow t else 0)"

definition as_dict :: "tally \<Rightarrow> counts" where
  "as_dict t = [(1, red t), (2, blue t), (3, green t), (4, yellow t)]"

text \<open>
  The custom colour rules of section 4.3, for a cell of colour \<open>cur\<close> (0 is Dead). The
  overcrowding draw is the argument \<open>u\<close>: the cell dies of it when \<open>u < 0.6\<close>, an event of
  probability 0.6 for a uniform draw of \<open>[0, 1)\<close>.
\<close>

definition spec_custom_rules :: "int \<Rightarrow> tally \<Rightarrow> int \<Rightarrow> int \<Rightarrow> real \<Rightarrow> int" where
  "spec_custom_rules cur t tot dominant u =
     (if cur \<noteq> 0 \<and> tot \<ge> 5 \<and> u < 0.6 then 0
      else if cur \<noteq> 0 \<and> (tot = 2 \<or> tot = 3) then cur
      else if cur \<noteq> 0 \<and> tot \<ge> 4 then
        (if Max {red t, blue t, green t, yellow t} \<ge> 3
         then (if dominant = 0 then cur else dominant) else 0)
      else if cur \<noteq> 0 \<and> tot = 1 then (if tally_of t cur = 1 then cur else 0)
      else if cur \<noteq> 0 then 0
      else if tot = 3 then (if dominant = 0 then 1 else dominant)
      else 0)"

text \<open>
  The number of draws the custom rules make: one for a living cell with five or more
  neighbours, none otherwise.
\<close>

definition spec_custom_draws :: "int \<Rightarrow> int \<Rightarrow> nat" where
  "spec_custom_draws cur tot = (if cur \<noteq> 0 \<and> tot \<ge> 5 then 1 else 0)"

text \<open>
  The dispatch of section 4.3 as the tagged decision of the design notes: \<open>u\<close> is the draw
  compared with \<open>randomOutcomeProbability\<close>, \<open>v\<close> the one compared with
  \<open>customRuleProbability\<close>.
\<close>

datatype rule_choice = RandomOutcome | Custom | Original

definition spec_choice :: "bool \<Rightarrow> real \<Rightarrow> real \<Rightarrow> real \<Rightarrow> real \<Rightarrow> rule_choice" where
  "spec_choice enabled random_outcome_probability custom_rule_probability u v =
     (if enabled \<and> u < random_outcome_probability then RandomOutcome
      else if enabled \<and> v < custom_rule_probability then Custom
      else if enabled then Original
      else Custom)"

text \<open>The random source after \<open>n\<close> more draws.\<close>

definition skip :: "nat \<Rightarrow> rng \<Rightarrow> rng" where
  "skip n r = r\<lparr>drawn := drawn r + n\<rparr>"

text \<open>
  The original monochrome rules of section 4.3: the colour only tells a living cell from a
  Dead one and is kept on survival; a birth takes the dominant colour, Red when that
  resolves to Dead.
\<close>

definition spec_original_rules :: "int \<Rightarrow> int \<Rightarrow> int \<Rightarrow> int" where
  "spec_original_rules cur tot dominant =
     (if cur \<noteq> 0 \<and> (tot = 2 \<or> tot = 3) then cur
      else if cur \<noteq> 0 then 0
      else if tot = 3 then (if dominant = 0 then 1 else dominant)
      else 0)"

text \<open>
  The random-outcome rule of section 4.3, for the uniform draw \<open>u\<close> and the random
  non-Dead colour \<open>k\<close>: a living cell dies when \<open>u < 0.4\<close>, keeps its colour when
  \<open>0.4 \<le> u < 0.7\<close> and takes the colour \<open>k\<close> when \<open>u \<ge> 0.7\<close>; a Dead cell takes the colour
  \<open>k\<close> when \<open>u < 0.1\<close> (probability 0.1) and stays Dead otherwise. The rule makes one draw
  for \<open>u\<close> and one more when a colour is needed.
\<close>

definition spec_random_outcome :: "int \<Rightarrow> real \<Rightarrow> int \<Rightarrow> int" where
  "spec_random_outcome cur u k =
     (if cur \<noteq> 0 then (if u < 0.4 then 0 else if u < 0.7 then cur else k)
      else (if u < 0.1 then k else 0))"

definition spec_random_draws :: "int \<Rightarrow> real \<Rightarrow> nat" where
  "spec_random_draws cur u =
     (if (cur \<noteq> 0 \<and> \<not> u < 0.7) \<or> (cur = 0 \<and> u < 0.1) then 2 else 1)"

text \<open>
  The draws ahead of a state of the random source: the \<open>i\<close>-th float draw from now, and the
  colour 1 to 4 the \<open>i\<close>-th draw from now gives when it is a colour draw.
\<close>

definition float_ahead :: "rng \<Rightarrow> nat \<Rightarrow> real" where
  "float_ahead r i = floats r (drawn r + i)"

definition colour_ahead :: "rng \<Rightarrow> nat \<Rightarrow> int" where
  "colour_ahead r i = 1 + int (integers r (drawn r + i) mod 4)"

text \<open>
  One cell of a generation as section 4.3 words it: the dispatch chooses the rule set from
  the first draw (and the second one when the first missed), the chosen table gives the
  new value. The result is that value and the number of draws made: under chaos one
  dispatch draw before the random-outcome rule, two before the custom or the original
  rules; without chaos the custom rules with no dispatch draw.
\<close>

definition spec_cell_rule ::
  "bool \<Rightarrow> real \<Rightarrow> real \<Rightarrow> int \<Rightarrow> tally \<Rightarrow> int \<Rightarrow> int \<Rightarrow> (nat \<Rightarrow> real) \<Rightarrow> (nat \<Rightarrow> int) \<Rightarrow>
   int \<times> nat" where
  "spec_cell_rule enabled random_outcome_probability custom_rule_probability
       cur t tot dominant u k =
     (case spec_choice enabled random_outcome_probability custom_rule_probability (u 0) (u 1) of
        RandomOutcome \<Rightarrow> (spec_random_outcome cur (u 1) (k 2), 1 + spec_random_draws cur (u 1))
      | Custom \<Rightarrow>
          (if enabled
           then (spec_custom_rules cur t tot dominant (u 2), 2 + spec_custom_draws cur tot)
           else (spec_custom_rules cur t tot dominant (u 0), spec_custom_draws cur tot))
      | Original \<Rightarrow> (spec_original_rules cur tot dominant, 2))"

text \<open>The tally a dictionary of neighbour counts stands for.\<close>

definition dict_tally :: "counts \<Rightarrow> tally" where
  "dict_tally d =
     \<lparr>red = dict_get d 1 0, blue = dict_get d 2 0, green = dict_get d 3 0,
      yellow = dict_get d 4 0\<rparr>"

section \<open>Notions the properties are stated with\<close>

text \<open>The (row, column) positions of the non-Dead cells of a grid.\<close>

definition alive_set :: "uint8 ndarray \<Rightarrow> (nat \<times> nat) set" where
  "alive_set a = {(j, i). j < nrows a \<and> i < ncols a \<and> cells a ! j ! i \<noteq> 0}"

text \<open>
  The tight bounding box of a non-empty set of positions, as
  \<open>(min_x, max_x, min_y, max_y)\<close> with both maxima inclusive.
\<close>

definition tight_box :: "(nat \<times> nat) set \<Rightarrow> int \<times> int \<times> int \<times> int" where
  "tight_box A =
     (int (Min (snd ` A)), int (Max (snd ` A)), int (Min (fst ` A)), int (Max (fst ` A)))"

text \<open>
  A box with inclusive maxima grown by a margin on all sides and cut to
  \<open>[0, w] \<times> [0, h]\<close>, its maxima now exclusive.
\<close>

definition grow_and_clamp ::
  "int \<Rightarrow> int \<Rightarrow> int \<Rightarrow> int \<times> int \<times> int \<times> int \<Rightarrow> int \<times> int \<times> int \<times> int" where
  "grow_and_clamp m w h b =
     (case b of
        (x0, x1, y0, y1) \<Rightarrow>
          (max 0 (x0 - m), min w (x1 + 1 + m), max 0 (y0 - m), min h (y1 + 1 + m)))"

text \<open>A position lies in a rectangle whose maxima are exclusive.\<close>

definition inside :: "int \<times> int \<times> int \<times> int \<Rightarrow> nat \<times> nat \<Rightarrow> bool" where
  "inside b p =
     (case b of
        (min_x, max_x, min_y, max_y) \<Rightarrow>
          min_x \<le> int (snd p) \<and> int (snd p) < max_x \<and>
          min_y \<le> int (fst p) \<and> int (fst p) < max_y)"

text \<open>A small engine state used to run the operations: a 5 by 5 grid holding a row of three Blue cells.\<close>

definition demo_game :: game where
  "demo_game =
     \<lparr>initial_width = 5, initial_height = 5, max_width = 8, max_height = 8,
      width = 5, height = 5,
      grid = NDArray 5 5
               [[0, 0, 0, 0, 0], [0, 0, 0, 0, 0], [0, 2, 2, 2, 0],
                [0, 0, 0, 0, 0], [0, 0, 0, 0, 0]],
      running = False, active_bounds = (0, 5, 0, 5), bounds_margin = 5,
      chaos_mode = False, chaos_probability = 0.3, rule_randomness = 0.1\<rparr>"

text \<open>
  The words of section 4.4: the size after an expansion request, the offset that centres
  the old grid in the new one, and a rectangle moved by an offset.
\<close>

definition clamped_size :: "int \<Rightarrow> int \<Rightarrow> int \<Rightarrow> int" where
  "clamped_size current target maximum = min (max current target) maximum"

definition centre_offset :: "int \<Rightarrow> int \<Rightarrow> int" where
  "centre_offset new old = (new - old) div 2"

definition shift :: "int \<Rightarrow> int \<Rightarrow> int \<times> int \<times> int \<times> int \<Rightarrow> int \<times> int \<times> int \<times> int" where
  "shift dx dy b =
     (case b of (min_x, max_x, min_y, max_y) \<Rightarrow> (min_x + dx, max_x + dx, min_y + dy, max_y + dy))"

text \<open>The cell at column \<open>x\<close> of row \<open>y\<close>, both within the grid.\<close>

definition cell :: "game \<Rightarrow> int \<Rightarrow> int \<Rightarrow> uint8" where
  "cell st x y = cells (grid st) ! nat y ! nat x"

text \<open>The invariant of section 3 on the sizes.\<close>

definition within_max :: "game \<Rightarrow> bool" where
  "within_max st \<longleftrightarrow> width st \<le> max_width st \<and> height st \<le> max_height st"

text \<open>A state of the random source used to run the operations: every float draw is 1/2.\<close>

definition demo_rng :: rng where
  "demo_rng = \<lparr>floats = (\<lambda>n. 1 / 2), integers = (\<lambda>n. n), drawn = 0\<rparr>"

text \<open>Every cell of a grid is one of the five cell states 0 to 4.\<close>

definition colours_ok :: "uint8 ndarray \<Rightarrow> bool" where
  "colours_ok a \<longleftrightarrow> list_all (list_all (\<lambda>c. c \<le> 4)) (cells a)"

text \<open>Every cell of a grid is Dead.\<close>

definition all_dead :: "uint8 ndarray \<Rightarrow> bool" where
  "all_dead a \<longleftrightarrow> list_all (list_all (\<lambda>c. c = 0)) (cells a)"

text \<open>
  A living cell with five or more living neighbours: the only cell the custom rules draw
  from the random source for. A state is calm when the rectangle that \<open>update\<close> scans holds
  no such cell.
\<close>

definition overcrowded :: "game \<Rightarrow> int \<times> int \<Rightarrow> bool" where
  "overcrowded st p =
     (case get_neighbors_by_color st (fst p) (snd p) of
        Inl e \<Rightarrow> False
      | Inr (color_counts, total_neighbors, neighbors) \<Rightarrow>
          (case np_get (grid st) (snd p) (fst p) of
             Inl e \<Rightarrow> False
           | Inr current_color \<Rightarrow> current_color > 0 \<and> total_neighbors \<ge> 5))"

definition calm :: "game \<Rightarrow> bool" where
  "calm st =
     list_all (\<lambda>p. \<not> overcrowded (update_active_bounds st) p)
       (scan_cells (active_bounds (update_active_bounds st)))"

text \<open>
  A 5 by 5 engine, chaos off, holding a 3 by 3 block of Blue cells (its centre has eight
  neighbours), and a random source whose float draws are all 9/10.
\<close>

definition block_game :: game where
  "block_game =
     demo_game\<lparr>grid := NDArray 5 5
                          [[0, 0, 0, 0, 0], [0, 2, 2, 2, 0], [0, 2, 2, 2, 0],
                           [0, 2, 2, 2, 0], [0, 0, 0, 0, 0]]\<rparr>"

definition late_rng :: rng where
  "late_rng = \<lparr>floats = (\<lambda>n. 9 / 10), integers = (\<lambda>n. n), drawn = 0\<rparr>"

text \<open>
  What \<open>get_neighbors_by_color\<close> computes on a grid it can read: the colours of the living
  neighbours on the torus, in the order of the loops, and their tally by colour.
\<close>

definition neighbor_at :: "game \<Rightarrow> int \<Rightarrow> int \<Rightarrow> int \<times> int \<Rightarrow> uint8" where
  "neighbor_at st x y d =
     cells (grid st) ! nat ((y + snd d) mod height st) ! nat ((x + fst d) mod width st)"

definition living_neighbors :: "game \<Rightarrow> int \<Rightarrow> int \<Rightarrow> (int \<times> int) list \<Rightarrow> uint8 list" where
  "living_neighbors st x y ds = filter (\<lambda>c. c \<noteq> 0) (map (neighbor_at st x y) ds)"

definition tally_count :: "uint8 list \<Rightarrow> int \<Rightarrow> int" where
  "tally_count ns k = int (length (filter (\<lambda>c. uint c = k) ns))"

definition tally_dict :: "uint8 list \<Rightarrow> counts" where
  "tally_dict ns =
     [(1, tally_count ns 1), (2, tally_count ns 2), (3, tally_count ns 3), (4, tally_count ns 4)]"

text \<open>\<open>a[y, x] = v\<close> at a position \<open>p = (x, y)\<close> inside the array.\<close>

definition put :: "'a ndarray \<Rightarrow> int \<times> int \<Rightarrow> 'a \<Rightarrow> 'a ndarray" where
  "put a p v =
     NDArray (nrows a) (ncols a)
       ((cells a)[nat (snd p) := (cells a ! nat (snd p))[nat (fst p) := v]])"

text \<open>
  The value the original rules give the cell \<open>p = (x, y)\<close> of a readable grid.
\<close>

definition original_value :: "game \<Rightarrow> int \<times> int \<Rightarrow> uint8" where
  "original_value st p =
     (let ns = living_neighbors st (fst p) (snd p) neighbor_offsets
      in case get_dominant_color (Dict (tally_dict ns)) of
           Inl e \<Rightarrow> 0
         | Inr d \<Rightarrow>
             word_of_int
               (apply_original_conway_rules (fst p) (snd p) (cell st (fst p) (snd p))
                  (int (length ns)) d))"

text \<open>A position \<open>(x, y)\<close> of the grid of a state.\<close>

definition on_grid :: "game \<Rightarrow> int \<times> int \<Rightarrow> bool" where
  "on_grid st p \<longleftrightarrow> 0 \<le> fst p \<and> fst p < width st \<and> 0 \<le> snd p \<and> snd p < height st"

text \<open>
  Chaos settings that always select the original rules: chaos on, both probabilities 0
  (no draw of \<open>[0, 1)\<close> is below 0).
\<close>

definition forced_original :: "game \<Rightarrow> bool" where
  "forced_original st \<longleftrightarrow>
     chaos_mode st \<and> rule_randomness st = 0 \<and> chaos_probability st = 0"

text \<open>
  A grid of \<open>W\<close> columns and \<open>H\<close> rows whose cell \<open>(x, y)\<close> has the colour \<open>c\<close> where
  \<open>P x y\<close> holds and is Dead elsewhere.
\<close>

definition painted :: "nat \<Rightarrow> nat \<Rightarrow> (int \<Rightarrow> int \<Rightarrow> bool) \<Rightarrow> uint8 \<Rightarrow> uint8 ndarray" where
  "painted W H P c =
     NDArray H W (map (\<lambda>j. map (\<lambda>i. if P (int i) (int j) then c else 0) [0..<W]) [0..<H])"

text \<open>
  The two phases of the blinker of colour \<open>c\<close>: three cells of row \<open>y0\<close> around column
  \<open>x0\<close>, and three cells of column \<open>x0\<close> around row \<open>y0\<close>.
\<close>

definition row_of_three :: "nat \<Rightarrow> nat \<Rightarrow> int \<Rightarrow> int \<Rightarrow> uint8 \<Rightarrow> uint8 ndarray" where
  "row_of_three W H x0 y0 c = painted W H (\<lambda>x y. y = y0 \<and> x0 - 1 \<le> x \<and> x \<le> x0 + 1) c"

definition column_of_three :: "nat \<Rightarrow> nat \<Rightarrow> int \<Rightarrow> int \<Rightarrow> uint8 \<Rightarrow> uint8 ndarray" where
  "column_of_three W H x0 y0 c = painted W H (\<lambda>x y. x = x0 \<and> y0 - 1 \<le> y \<and> y \<le> y0 + 1) c"

text \<open>Conway's rule for a cell of a grid of one colour \<open>c\<close> with \<open>n\<close> living neighbours.\<close>

definition life :: "uint8 \<Rightarrow> bool \<Rightarrow> nat \<Rightarrow> uint8" where
  "life c alive n =
     (if alive then (if n = 2 \<or> n = 3 then c else 0) else (if n = 3 then c else 0))"

text \<open>Two generations, the second one drawing from where the first one stopped.\<close>

definition update_twice :: "game \<Rightarrow> rng \<Rightarrow> exn + game \<times> rng" where
  "update_twice st r = (case update st r of Inl e \<Rightarrow> Inl e | Inr (st', r') \<Rightarrow> update st' r')"

text \<open>
  The 5 by 5 engine with the row of three Blue cells, its chaos settings forcing the
  original rules.
\<close>

definition forced_game :: game where
  "forced_game = demo_game\<lparr>chaos_mode := True, chaos_probability := 0, rule_randomness := 0\<rparr>"

section \<open>The Mandelbrot seed generator\<close>

text \<open>
  \<open>MandelbrotGenerator\<close> computes with Python floats and complex numbers. The model
  takes that arithmetic as a parameter: the float type \<open>'f\<close>, the complex type \<open>'c\<close> and
  the operations the source applies, in the order it applies them. Float and complex
  addition, subtraction and multiplication never raise (they overflow to infinities);
  \<open>abs\<close> of a complex number raises \<open>OverflowError\<close> when the modulus is too large for a
  float, so \<open>c_abs\<close> is partial (\<open>None\<close> is the raise). Nothing else is assumed of the
  operations. The four bounds are floats, the sizes, \<open>max_iter\<close> and \<open>threshold\<close> are
  ints; the division \<open>x / width\<close> runs only for \<open>0 \<le> x < width\<close> and so never divides by
  zero.
\<close>

record ('f, 'c) arith =
  true_div :: "int \<Rightarrow> int \<Rightarrow> 'f"
  f_add :: "'f \<Rightarrow> 'f \<Rightarrow> 'f"
  f_sub :: "'f \<Rightarrow> 'f \<Rightarrow> 'f"
  f_mul :: "'f \<Rightarrow> 'f \<Rightarrow> 'f"
  mk_complex :: "'f \<Rightarrow> 'f \<Rightarrow> 'c"
  c_zero :: "'c"
  c_add :: "'c \<Rightarrow> 'c \<Rightarrow> 'c"
  c_mul :: "'c \<Rightarrow> 'c \<Rightarrow> 'c"
  c_abs :: "'c \<Rightarrow> 'f option"
  gt_int :: "'f \<Rightarrow> int \<Rightarrow> bool"

text \<open>
  \<open>mandelbrot_iteration\<close>: the loop over \<open>range(max_iter)\<close> with the current \<open>z\<close>; it
  returns \<open>n\<close> at the first \<open>abs(z) > 2\<close>, \<open>max_iter\<close> when the range is exhausted, and
  raises when \<open>abs(z)\<close> does.
\<close>

fun mandelbrot_loop :: "('f, 'c) arith \<Rightarrow> 'c \<Rightarrow> 'c \<Rightarrow> nat list \<Rightarrow> int \<Rightarrow> exn + int" where
  "mandelbrot_loop ops c z [] max_iter = Inr max_iter"
| "mandelbrot_loop ops c z (n # ns) max_iter =
     (case c_abs ops z of
        None \<Rightarrow> Inl OverflowError
      | Some a \<Rightarrow>
          if gt_int ops a 2 then Inr (int n)
          else mandelbrot_loop ops c (c_add ops (c_mul ops z z) c) ns max_iter)"

definition mandelbrot_iteration :: "('f, 'c) arith \<Rightarrow> 'c \<Rightarrow> int \<Rightarrow> exn + int" where
  "mandelbrot_iteration ops c max_iter =
     mandelbrot_loop ops c (c_zero ops) [0..<nat max_iter] max_iter"

text \<open>\<open>np.zeros((height, width), dtype=int)\<close>.\<close>

definition np_zeros_int :: "int \<Rightarrow> int \<Rightarrow> exn + int ndarray" where
  "np_zeros_int h w =
     (if h < 0 \<or> w < 0 then Inl ValueError
      else Inr (NDArray (nat h) (nat w) (replicate (nat h) (replicate (nat w) 0))))"

text \<open>
  The body of the double loop of \<open>generate_mandelbrot_grid\<close> for the pixel
  \<open>p = (x, y)\<close>; \<open>w\<close>, \<open>h\<close>, \<open>re\<close>, \<open>im\<close> and \<open>g\<close> are the source's \<open>width\<close>, \<open>height\<close>,
  \<open>real\<close>, \<open>imag\<close> and \<open>grid\<close>.
\<close>

definition mandelbrot_pixel ::
  "('f, 'c) arith \<Rightarrow> int \<Rightarrow> int \<Rightarrow> 'f \<Rightarrow> 'f \<Rightarrow> 'f \<Rightarrow> 'f \<Rightarrow> int \<Rightarrow> int \<Rightarrow>
   int \<times> int \<Rightarrow> int ndarray \<Rightarrow> exn + int ndarray" where
  "mandelbrot_pixel ops w h x_min x_max y_min y_max max_iter threshold p g =
     (let re = f_add ops x_min (f_mul ops (true_div ops (fst p) w) (f_sub ops x_max x_min));
          im = f_add ops y_min (f_mul ops (true_div ops (snd p) h) (f_sub ops y_max y_min));
          c = mk_complex ops re im
      in case mandelbrot_iteration ops c max_iter of
           Inl e \<Rightarrow> Inl e
         | Inr iterations \<Rightarrow>
             if iterations < threshold then np_set g (snd p) (fst p) 1 else Inr g)"

definition generate_mandelbrot_grid ::
  "('f, 'c) arith \<Rightarrow> int \<Rightarrow> int \<Rightarrow> 'f \<Rightarrow> 'f \<Rightarrow> 'f \<Rightarrow> 'f \<Rightarrow> int \<Rightarrow> int \<Rightarrow> exn + int ndarray" where
  "generate_mandelbrot_grid ops w h x_min x_max y_min y_max max_iter threshold =
     (case np_zeros_int h w of
        Inl e \<Rightarrow> Inl e
      | Inr g \<Rightarrow>
          for_each
            (mandelbrot_pixel ops w h x_min x_max y_min y_max max_iter threshold)
            [(x, y). y \<leftarrow> [0..h - 1], x \<leftarrow> [0..w - 1]] g)"

subsection \<open>Section 4.5 in its own words\<close>

text \<open>
  The point of the plane of the pixel \<open>(x, y)\<close>, the orbit \<open>z\<^sub>0 = 0\<close>,
  \<open>z\<^bsub>n+1\<^esub> = z\<^sub>n\<^sup>2 + c\<close>, and the escape iteration: the walk along the orbit stops at
  the first \<open>n\<close> below \<open>maxIter\<close> where \<open>|z\<^sub>n|\<close> exceeds 2 or cannot be computed; it
  records \<open>n\<close> in the first case, fails in the second, and records \<open>maxIter\<close> when it never
  stops.
\<close>

definition pixel_point ::
  "('f, 'c) arith \<Rightarrow> int \<Rightarrow> int \<Rightarrow> 'f \<Rightarrow> 'f \<Rightarrow> 'f \<Rightarrow> 'f \<Rightarrow> int \<Rightarrow> int \<Rightarrow> 'c" where
  "pixel_point ops w h x_min x_max y_min y_max x y =
     mk_complex ops
       (f_add ops x_min (f_mul ops (true_div ops x w) (f_sub ops x_max x_min)))
       (f_add ops y_min (f_mul ops (true_div ops y h) (f_sub ops y_max y_min)))"

definition orbit :: "('f, 'c) arith \<Rightarrow> 'c \<Rightarrow> nat \<Rightarrow> 'c" where
  "orbit ops c n = ((\<lambda>z. c_add ops (c_mul ops z z) c) ^^ n) (c_zero ops)"

definition overflows :: "('f, 'c) arith \<Rightarrow> 'c \<Rightarrow> bool" where
  "overflows ops z = (c_abs ops z = None)"

definition escaped :: "('f, 'c) arith \<Rightarrow> 'c \<Rightarrow> bool" where
  "escaped ops z = (case c_abs ops z of None \<Rightarrow> False | Some a \<Rightarrow> gt_int ops a 2)"

definition escape_iteration :: "('f, 'c) arith \<Rightarrow> 'c \<Rightarrow> int \<Rightarrow> exn + int" where
  "escape_iteration ops c max_iter =
     (case find (\<lambda>n. overflows ops (orbit ops c n) \<or> escaped ops (orbit ops c n))
             [0..<nat max_iter] of
        None \<Rightarrow> Inr max_iter
      | Some n \<Rightarrow> if overflows ops (orbit ops c n) then Inl OverflowError else Inr (int n))"

text \<open>
  One instance of \<open>arith\<close>: the exact arithmetic of the real and the complex numbers with
  the overflow check of \<open>abs\<close>, which raises when the modulus exceeds the largest double,
  \<open>(2\<^sup>5\<^sup>3 - 1) 2\<^sup>9\<^sup>7\<^sup>1\<close>. On a run where every intermediate value is itself a double no
  rounding takes place, and the source computes what this arithmetic does.
\<close>

definition max_double :: real where
  "max_double = (2 ^ 53 - 1) * 2 ^ 971"

definition checked_arith :: "(real, complex) arith" where
  "checked_arith =
     \<lparr>true_div = (\<lambda>a b. real_of_int a / real_of_int b),
      f_add = (+), f_sub = (-), f_mul = (*),
      mk_complex = Complex, c_zero = 0, c_add = (+), c_mul = (*),
      c_abs = (\<lambda>z. if cmod z > max_double then None else Some (cmod z)),
      gt_int = (\<lambda>f k. f > real_of_int k)\<rparr>"

text \<open>The double \<open>1.5 \<times> 2\<^sup>1\<^sup>0\<^sup>2\<^sup>3\<close>, about \<open>1.35e308\<close>.\<close>

definition huge :: real where
  "huge = 3 * 2 ^ 1022"

section \<open>Verified properties\<close>


subsection \<open>The dominant colour\<close>

lemma dominant_dict_closed:
  "get_dominant_color (Dict [(1, a), (2, b), (3, c), (4, e)]) =
     Inr (if a + b + c + e = 0 then 1
          else if b \<le> a \<and> c \<le> a \<and> e \<le> a then 1
          else if c \<le> b \<and> e \<le> b then 2
          else if e \<le> c then 3 else 4)"
  by (simp add: get_dominant_color_def dict_values_def dict_keys_def py_max_key_def)

lemma dominant_v3_closed:
  "get_dominant_color_v3 [(1, a), (2, b), (3, c), (4, e)] =
     Inr (if a + b + c + e = 0 then 1
          else if b \<le> a \<and> c \<le> a \<and> e \<le> a then 1
          else if c \<le> b \<and> e \<le> b then 2
          else if e \<le> c then 3 else 4)"
  by (simp add: get_dominant_color_v3_def dict_values_def dict_keys_def py_max_key_def)

lemma dominant_array_closed:
  "get_dominant_color (Array [z, a, b, c, e]) =
     Inr (if a + b + c + e = 0 then 1
          else if b \<le> a \<and> c \<le> a \<and> e \<le> a then 1
          else if c \<le> b \<and> e \<le> b then 2
          else if e \<le> c then 3 else 4)"
  by (simp add: get_dominant_color_def np_argmax_def py_max_key_def upt_conv_Cons)

text \<open>
  Claim C8. For the counts \<open>a, b, c, e\<close> of Red, Blue, Green and Yellow neighbours (none
  negative), \<open>get_dominant_color\<close> returns a colour \<open>k\<close> of 1 to 4 whose count is maximal;
  every colour before \<open>k\<close> in the order Red, Blue, Green, Yellow has a strictly smaller
  count, so the first colour reaching the maximum wins a tie and a strict maximum is
  returned; when the four counts are zero the result is Red. The dictionary form of
  \<open>wow.py\<close>, its array form and the function of \<open>scrips3.py\<close> agree.
\<close>

theorem get_dominant_color_first_maximum:
  assumes "0 \<le> a" "0 \<le> b" "0 \<le> c" "0 \<le> e"
  shows "\<exists>k. get_dominant_color (Dict [(1, a), (2, b), (3, c), (4, e)]) = Inr k
           \<and> get_dominant_color_v3 [(1, a), (2, b), (3, c), (4, e)] = Inr k
           \<and> get_dominant_color (Array [z, a, b, c, e]) = Inr k
           \<and> k \<in> {1, 2, 3, 4}
           \<and> (a = 0 \<and> b = 0 \<and> c = 0 \<and> e = 0 \<longrightarrow> k = 1)
           \<and> (\<forall>j \<in> {1, 2, 3, 4}.
                 dict_get [(1, a), (2, b), (3, c), (4, e)] j 0
                   \<le> dict_get [(1, a), (2, b), (3, c), (4, e)] k 0)
           \<and> (\<forall>j \<in> {1, 2, 3, 4}. j < k \<longrightarrow>
                 dict_get [(1, a), (2, b), (3, c), (4, e)] j 0
                   < dict_get [(1, a), (2, b), (3, c), (4, e)] k 0)"
  unfolding dominant_dict_closed dominant_v3_closed dominant_array_closed
  using assms by (auto simp: dict_get_def)

theorem get_dominant_color_first_maximum_witness:
  "get_dominant_color (Dict [(1, 0), (2, 2), (3, 2), (4, 1)]) = Inr 2
   \<and> get_dominant_color (Dict [(1, 0), (2, 0), (3, 0), (4, 0)]) = Inr 1"
  using get_dominant_color_first_maximum [of 0 2 2 1 0]
        get_dominant_color_first_maximum [of 0 0 0 0 0]
  by (auto simp: dict_get_def)

subsection \<open>The custom colour rules\<close>

lemma max_color_count_as_dict:
  "max_color_count (as_dict t) = Max {red t, blue t, green t, yellow t}"
  by (auto simp: max_color_count_def as_dict_def dict_values_def max_def)

lemma dict_get_as_dict: "dict_get (as_dict t) k 0 = tally_of t k"
  by (simp add: dict_get_def as_dict_def tally_of_def)

lemma uint8_pos_iff: "(0 < (c :: uint8)) \<longleftrightarrow> uint c \<noteq> 0"
  by (simp add: word_greater_zero_iff uint_0_iff)

text \<open>
  Claim C2. On every colour, tally, neighbour tot and dominant colour,
  \<open>apply_custom_color_rules\<close> returns the value of the table of section 4.3: the
  overcrowding death is the event \<open>u < 0.6\<close> of one draw \<open>u\<close>, made only for a living cell
  with five or more neighbours and before any other branch; the random source advances by
  exactly that draw.
\<close>

theorem apply_custom_color_rules_table:
  assumes "0 \<le> dominant"
  shows "apply_custom_color_rules x y cur (as_dict t) tot dominant r =
     (spec_custom_rules (uint cur) t tot dominant (floats r (drawn r)),
      skip (spec_custom_draws (uint cur) tot) r)"
  using assms
  by (auto simp add: apply_custom_color_rules_def spec_custom_rules_def spec_custom_draws_def
      skip_def random_def max_color_count_as_dict dict_get_as_dict uint8_pos_iff
      simp del: Max_insert)

theorem apply_custom_color_rules_table_witness:
  "apply_custom_color_rules 0 0 2 [(1, 3), (2, 1), (3, 0), (4, 0)] 4 0
     \<lparr>floats = (\<lambda>n. 9 / 10), integers = (\<lambda>n. 0), drawn = 0\<rparr>
   = (2, \<lparr>floats = (\<lambda>n. 9 / 10), integers = (\<lambda>n. 0), drawn = 0\<rparr>)
   \<and> apply_custom_color_rules 0 0 2 [(1, 3), (2, 3), (3, 0), (4, 0)] 6 1
     \<lparr>floats = (\<lambda>n. 1 / 2), integers = (\<lambda>n. 0), drawn = 0\<rparr>
   = (0, \<lparr>floats = (\<lambda>n. 1 / 2), integers = (\<lambda>n. 0), drawn = 1\<rparr>)"
  using apply_custom_color_rules_table
          [of 0 0 0 2 "\<lparr>red = 3, blue = 1, green = 0, yellow = 0\<rparr>" 4
             "\<lparr>floats = (\<lambda>n. 9 / 10), integers = (\<lambda>n. 0), drawn = 0\<rparr>"]
        apply_custom_color_rules_table
          [of 1 0 0 2 "\<lparr>red = 3, blue = 3, green = 0, yellow = 0\<rparr>" 6
             "\<lparr>floats = (\<lambda>n. 1 / 2), integers = (\<lambda>n. 0), drawn = 0\<rparr>"]
  by (simp add: as_dict_def spec_custom_rules_def spec_custom_draws_def skip_def tally_of_def)

subsection \<open>The active bounds\<close>

lemma set_np_where_pos: "set (np_where_pos a) = alive_set a"
  by (auto simp: np_where_pos_def alive_set_def word_greater_zero_iff)

lemma np_sum_zero_iff:
  assumes "wf_array a"
  shows "np_sum a = 0 \<longleftrightarrow> alive_set a = {}"
proof -
  have len: "length (cells a) = nrows a"
    and row: "\<And>j. j < nrows a \<Longrightarrow> length (cells a ! j) = ncols a"
    using assms by (auto simp: wf_array_def list_all_length)
  have "np_sum a = 0 \<longleftrightarrow> (\<forall>r \<in> set (cells a). \<forall>c \<in> set r. c = 0)"
    by (auto simp: np_sum_def unat_eq_0)
  also have "\<dots> \<longleftrightarrow> (\<forall>j < nrows a. \<forall>i < ncols a. cells a ! j ! i = 0)"
    using len row by (auto simp: all_set_conv_all_nth)
  also have "\<dots> \<longleftrightarrow> alive_set a = {}"
    by (auto simp: alive_set_def)
  finally show ?thesis .
qed

lemma finite_alive_set: "finite (alive_set a)"
proof -
  have "alive_set a \<subseteq> {..<nrows a} \<times> {..<ncols a}"
    by (auto simp: alive_set_def)
  then show ?thesis by (rule finite_subset) simp
qed

lemma update_active_bounds_empty:
  assumes "wf_game st" "alive_set (grid st) = {}"
  shows "active_bounds (update_active_bounds st) =
           (width st div 2 - 1, width st div 2 + 1, height st div 2 - 1, height st div 2 + 1)"
  using assms np_sum_zero_iff [of "grid st"]
  by (simp add: update_active_bounds_def wf_game_def Let_def)

lemma update_active_bounds_alive:
  assumes "wf_game st" "alive_set (grid st) \<noteq> {}"
  shows "active_bounds (update_active_bounds st) =
           grow_and_clamp (bounds_margin st) (width st) (height st) (tight_box (alive_set (grid st)))"
proof -
  have "np_sum (grid st) \<noteq> 0"
    using assms np_sum_zero_iff [of "grid st"] by (simp add: wf_game_def)
  moreover have "np_where_pos (grid st) \<noteq> []"
    using assms(2) set_np_where_pos [of "grid st"] by auto
  ultimately show ?thesis
    by (simp add: update_active_bounds_def Let_def grow_and_clamp_def tight_box_def
        set_np_where_pos [symmetric] add.commute add.left_commute)
qed

lemma inside_grown_box:
  assumes "wf_game st" "p \<in> alive_set (grid st)" "0 \<le> m"
  shows "inside (grow_and_clamp m (width st) (height st) (tight_box (alive_set (grid st)))) p"
proof -
  let ?A = "alive_set (grid st)"
  have fin: "finite (snd ` ?A)" "finite (fst ` ?A)"
    using finite_alive_set by auto
  have mem: "snd p \<in> snd ` ?A" "fst p \<in> fst ` ?A"
    using assms(2) by auto
  have "Min (snd ` ?A) \<le> snd p" "snd p \<le> Max (snd ` ?A)"
       "Min (fst ` ?A) \<le> fst p" "fst p \<le> Max (fst ` ?A)"
    using fin mem by (auto intro: Min_le Max_ge)
  moreover have "int (snd p) < width st" "int (fst p) < height st"
    using assms(1,2) by (auto simp: wf_game_def alive_set_def)
  ultimately show ?thesis
    using assms(3) by (auto simp: inside_def grow_and_clamp_def tight_box_def)
qed

text \<open>
  Claim C5. After \<open>update_active_bounds\<close> on a well-formed state (margin 5, as the
  constructor sets it): when no cell is alive the bounds are the 2 by 2 box
  \<open>[cx - 1, cx + 1) \<times> [cy - 1, cy + 1)\<close> around \<open>(width div 2, height div 2)\<close>; otherwise they
  are the tight bounding box of the living cells grown by 5 on every side and cut to
  \<open>[0, width] \<times> [0, height]\<close>, and every living cell lies inside them, the maxima being
  exclusive.
\<close>

theorem update_active_bounds_box:
  assumes "wf_game st" "bounds_margin st = 5"
  shows "active_bounds (update_active_bounds st) =
           (if alive_set (grid st) = {}
            then (width st div 2 - 1, width st div 2 + 1,
                  height st div 2 - 1, height st div 2 + 1)
            else grow_and_clamp 5 (width st) (height st) (tight_box (alive_set (grid st))))
         \<and> (\<forall>p \<in> alive_set (grid st). inside (active_bounds (update_active_bounds st)) p)"
  using assms update_active_bounds_empty [of st] update_active_bounds_alive [of st]
    inside_grown_box [of st _ 5]
  by auto

lemma wf_demo_game: "wf_game demo_game"
  by (simp add: wf_game_def wf_array_def demo_game_def)

theorem update_active_bounds_box_witness:
  "wf_game demo_game \<and> bounds_margin demo_game = 5
   \<and> (2, 1) \<in> alive_set (grid demo_game)
   \<and> active_bounds (update_active_bounds demo_game) =
       grow_and_clamp 5 5 5 (tight_box (alive_set (grid demo_game)))
   \<and> inside (active_bounds (update_active_bounds demo_game)) (2, 1)"
proof -
  have a: "(2, 1) \<in> alive_set (grid demo_game)"
    by (simp add: alive_set_def demo_game_def)
  have m: "bounds_margin demo_game = 5" "width demo_game = 5" "height demo_game = 5"
    by (simp_all add: demo_game_def)
  have ne: "alive_set (grid demo_game) \<noteq> {}"
    using a by auto
  note box = update_active_bounds_box [OF wf_demo_game m(1)]
  have b: "active_bounds (update_active_bounds demo_game) =
             grow_and_clamp 5 5 5 (tight_box (alive_set (grid demo_game)))"
    using box ne by (simp add: m)
  have i: "inside (active_bounds (update_active_bounds demo_game)) (2, 1)"
    using box a by blast
  show ?thesis
    using wf_demo_game m(1) a b i by simp
qed

subsection \<open>Expansion\<close>

lemma py_slice_inner:
  assumes "0 \<le> a" "a + int n \<le> int N"
  shows "py_slice N a (a + int n) = (nat a, n)"
  using assms by (simp add: py_slice_def Let_def min_def)

lemma np_set_block_centred:
  assumes "0 \<le> oy" "0 \<le> ox" "oy + int (nrows b) \<le> int H" "ox + int (ncols b) \<le> int W"
  shows "np_set_block (NDArray H W zs) (oy, oy + int (nrows b)) (ox, ox + int (ncols b)) b =
           Inr (NDArray H W
                  (map (\<lambda>j. if nat oy \<le> j \<and> j < nat oy + nrows b then
                               map (\<lambda>i. if nat ox \<le> i \<and> i < nat ox + ncols b then
                                           cells b ! (j - nat oy) ! (i - nat ox)
                                         else zs ! j ! i)
                                   [0..<W]
                             else zs ! j)
                       [0..<H]))"
proof -
  have r: "\<And>j. nat oy \<le> j \<Longrightarrow> j < nat oy + nrows b \<Longrightarrow>
             (if nrows b = 1 then 0 else j - nat oy) = j - nat oy"
    by auto
  have c: "\<And>i. nat ox \<le> i \<Longrightarrow> i < nat ox + ncols b \<Longrightarrow>
             (if ncols b = 1 then 0 else i - nat ox) = i - nat ox"
    by auto
  show ?thesis
    using assms r c
    by (simp add: np_set_block_def py_slice_inner cong: if_cong)
qed

text \<open>
  Claim C4, as stated, fails on an engine whose sizes exceed its maxima, a state the
  constructor, \<open>set_grid\<close> and \<open>set_max_size\<close> all reach. After \<open>set_max_size(2, 2)\<close> on the
  5 by 5 engine, the request \<open>(9, 6)\<close> gives the new sizes 2 by 2 and the copy of the 5 by 5
  grid into the smaller one raises \<open>ValueError\<close>. On a 1 by 1 engine holding a Red cell,
  with maxima 0 by 0, the request \<open>(5, 5)\<close> gives the sizes 0 by 0: the call returns \<open>True\<close>
  with an empty grid, the old cell cropped away.
\<close>

theorem expand_beyond_maxima_raises_or_crops:
  "wf_game (set_max_size demo_game 2 2)
   \<and> isl (expand_grid_if_needed (set_max_size demo_game 2 2) 9 6)
   \<and> projl (expand_grid_if_needed (set_max_size demo_game 2 2) 9 6) = ValueError
   \<and> wf_game (set_grid (set_max_size demo_game 0 0) (NDArray 1 1 [[1]]))
   \<and> cells (grid (set_grid (set_max_size demo_game 0 0) (NDArray 1 1 [[1]]))) = [[1]]
   \<and> \<not> isl (expand_grid_if_needed
               (set_grid (set_max_size demo_game 0 0) (NDArray 1 1 [[1]])) 5 5)
   \<and> snd (projr (expand_grid_if_needed
                    (set_grid (set_max_size demo_game 0 0) (NDArray 1 1 [[1]])) 5 5))
   \<and> cells (grid (fst (projr (expand_grid_if_needed
                    (set_grid (set_max_size demo_game 0 0) (NDArray 1 1 [[1]])) 5 5)))) = []"
  by code_simp

text \<open>
  Claim C4, amended. On a well-formed state whose sizes respect the maxima, for every
  target: the new sizes are \<open>min (max width target_width) max_width\<close> and the like for the
  height. When they equal the old sizes, \<open>expand_grid_if_needed\<close> returns \<open>False\<close> and the
  state unchanged. Otherwise it returns \<open>True\<close>, a state of the new sizes whose grid has that
  shape, holds the old cell \<open>(x - offset_x, y - offset_y)\<close> at every position of the block
  placed at offset \<open>((new_width - width) div 2, (new_height - height) div 2)\<close> and Dead
  everywhere else, and whose active bounds are the old ones moved by that offset; no
  other field changes.
\<close>

theorem expand_grid_if_needed_centred:
  assumes "wf_game st" "within_max st"
  shows "(let nw = clamped_size (width st) target_width (max_width st);
              nh = clamped_size (height st) target_height (max_height st);
              ox = centre_offset nw (width st);
              oy = centre_offset nh (height st)
          in if nw = width st \<and> nh = height st
             then expand_grid_if_needed st target_width target_height = Inr (st, False)
             else (\<exists>g. expand_grid_if_needed st target_width target_height =
                          Inr (st\<lparr>grid := g, width := nw, height := nh,
                                  active_bounds := shift ox oy (active_bounds st)\<rparr>, True)
                      \<and> wf_array g \<and> int (nrows g) = nh \<and> int (ncols g) = nw
                      \<and> (\<forall>y. 0 \<le> y \<and> y < nh \<longrightarrow> (\<forall>x. 0 \<le> x \<and> x < nw \<longrightarrow>
                            cells g ! nat y ! nat x =
                              (if ox \<le> x \<and> x < ox + width st \<and> oy \<le> y \<and> y < oy + height st
                               then cell st (x - ox) (y - oy) else 0)))))"
proof -
  define nw where "nw = clamped_size (width st) target_width (max_width st)"
  define nh where "nh = clamped_size (height st) target_height (max_height st)"
  define ox where "ox = centre_offset nw (width st)"
  define oy where "oy = centre_offset nh (height st)"
  have w: "int (ncols (grid st)) = width st" and h: "int (nrows (grid st)) = height st"
    using assms(1) by (auto simp: wf_game_def)
  have ge: "width st \<le> nw" "height st \<le> nh"
    using assms(2) by (auto simp: nw_def nh_def clamped_size_def within_max_def)
  have nn: "0 \<le> nw" "0 \<le> nh" using ge w h by linarith+
  have off: "0 \<le> ox" "0 \<le> oy" "ox + width st \<le> nw" "oy + height st \<le> nh"
    using ge by (auto simp: ox_def oy_def centre_offset_def)
  have sz: "min (max (width st) target_width) (max_width st) = nw"
    "min (max (height st) target_height) (max_height st) = nh"
    "(nw - width st) div 2 = ox" "(nh - height st) div 2 = oy"
    by (simp_all add: nw_def nh_def ox_def oy_def clamped_size_def centre_offset_def)
  show ?thesis
  proof (cases "nw = width st \<and> nh = height st")
    case True
    then have "expand_grid_if_needed st target_width target_height = Inr (st, False)"
      by (simp add: expand_grid_if_needed_def sz Let_def)
    with True show ?thesis
      unfolding Let_def nw_def [symmetric] nh_def [symmetric]
      by simp
  next
    case False
    let ?zs = "replicate (nat nh) (replicate (nat nw) (0 :: uint8))"
    let ?g = "NDArray (nat nh) (nat nw)
                (map (\<lambda>j. if nat oy \<le> j \<and> j < nat oy + nrows (grid st) then
                             map (\<lambda>i. if nat ox \<le> i \<and> i < nat ox + ncols (grid st) then
                                         cells (grid st) ! (j - nat oy) ! (i - nat ox)
                                       else ?zs ! j ! i)
                                 [0..<nat nw]
                           else ?zs ! j)
                     [0..<nat nh])"
    have blk: "np_set_block (NDArray (nat nh) (nat nw) ?zs)
                 (oy, oy + height st) (ox, ox + width st) (grid st) = Inr ?g"
      using np_set_block_centred [of oy ox "grid st" "nat nh" "nat nw" ?zs] off nn w h
      by simp
    have run: "expand_grid_if_needed st target_width target_height =
                 Inr (st\<lparr>grid := ?g, width := nw, height := nh,
                         active_bounds := shift ox oy (active_bounds st)\<rparr>, True)"
      using False nn blk
      by (simp add: expand_grid_if_needed_def Let_def sz np_zeros_def shift_def
          split: prod.splits)
    have wfg: "wf_array ?g"
      by (auto simp: wf_array_def list_all_iff)
    have shape: "int (nrows ?g) = nh" "int (ncols ?g) = nw"
      using nn by simp_all
    have pt: "cells ?g ! nat y ! nat x =
                (if ox \<le> x \<and> x < ox + width st \<and> oy \<le> y \<and> y < oy + height st
                 then cell st (x - ox) (y - oy) else 0)"
      if "0 \<le> y" "y < nh" "0 \<le> x" "x < nw" for x y
    proof -
      have lt: "nat y < nat nh" "nat x < nat nw" using that by auto
      have eq: "nat y - nat oy = nat (y - oy)" "nat x - nat ox = nat (x - ox)"
        using that off by auto
      show ?thesis
        using lt that off w h
        by (auto simp: cell_def eq nat_le_iff nat_less_iff)
    qed
    have ex: "\<exists>g. expand_grid_if_needed st target_width target_height =
                     Inr (st\<lparr>grid := g, width := nw, height := nh,
                             active_bounds := shift ox oy (active_bounds st)\<rparr>, True)
                 \<and> wf_array g \<and> int (nrows g) = nh \<and> int (ncols g) = nw
                 \<and> (\<forall>y. 0 \<le> y \<and> y < nh \<longrightarrow> (\<forall>x. 0 \<le> x \<and> x < nw \<longrightarrow>
                       cells g ! nat y ! nat x =
                         (if ox \<le> x \<and> x < ox + width st \<and> oy \<le> y \<and> y < oy + height st
                          then cell st (x - ox) (y - oy) else 0)))"
      by (rule exI [of _ ?g], intro conjI allI impI)
        (rule run wfg shape pt; (elim conjE)?; assumption)+
    from False have c: "(nw = width st \<and> nh = height st) = False"
      by simp
    show ?thesis
      unfolding Let_def nw_def [symmetric] nh_def [symmetric] ox_def [symmetric]
        oy_def [symmetric] c if_False
      by (rule ex)
  qed
qed

lemma within_max_demo_game: "within_max demo_game"
  by (simp add: within_max_def demo_game_def)

theorem expand_grid_if_needed_centred_witness:
  "wf_game demo_game \<and> within_max demo_game
   \<and> expand_grid_if_needed demo_game 3 3 = Inr (demo_game, False)
   \<and> (\<exists>g. expand_grid_if_needed demo_game 9 6 =
              Inr (demo_game\<lparr>grid := g, width := 8, height := 6,
                             active_bounds := (1, 6, 0, 5)\<rparr>, True)
          \<and> cells g ! 2 ! 2 = 2 \<and> cells g ! 2 ! 0 = 0 \<and> cells g ! 5 ! 3 = 0)"
proof -
  have s: "width demo_game = 5" "height demo_game = 5" "max_width demo_game = 8"
    "max_height demo_game = 8" "active_bounds demo_game = (0, 5, 0, 5)"
    by (simp_all add: demo_game_def)
  have no: "expand_grid_if_needed demo_game 3 3 = Inr (demo_game, False)"
    using expand_grid_if_needed_centred [OF wf_demo_game within_max_demo_game, of 3 3]
    by (simp add: Let_def clamped_size_def s)
  obtain g where run: "expand_grid_if_needed demo_game 9 6 =
      Inr (demo_game\<lparr>grid := g, width := 8, height := 6,
                     active_bounds := (1, 6, 0, 5)\<rparr>, True)"
    and pt: "\<And>x y. 0 \<le> y \<Longrightarrow> y < 6 \<Longrightarrow> 0 \<le> x \<Longrightarrow> x < 8 \<Longrightarrow>
               cells g ! nat y ! nat x =
                 (if 1 \<le> x \<and> x < 6 \<and> 0 \<le> y \<and> y < 5 then cell demo_game (x - 1) y else 0)"
    using expand_grid_if_needed_centred [OF wf_demo_game within_max_demo_game, of 9 6]
    by (auto simp: Let_def clamped_size_def centre_offset_def shift_def s)
  have "cells g ! 2 ! 2 = 2" "cells g ! 2 ! 0 = 0" "cells g ! 5 ! 3 = 0"
    using pt [of 2 2] pt [of 2 0] pt [of 5 3]
    by (simp_all add: cell_def demo_game_def)
  with no run wf_demo_game within_max_demo_game show ?thesis
    by blast
qed

subsection \<open>The size invariant\<close>

lemma for_each_invariant:
  assumes "for_each body xs s = Inr s'" "I s"
    and "\<And>a t t'. a \<in> set xs \<Longrightarrow> I t \<Longrightarrow> body a t = Inr t' \<Longrightarrow> I t'"
  shows "I s'"
  using assms
proof (induction xs arbitrary: s)
  case Nil
  then show ?case by simp
next
  case (Cons a xs)
  from Cons.prems(1) obtain t where t: "body a s = Inr t" "for_each body xs t = Inr s'"
    by (auto split: sum.splits)
  have "I t" using Cons.prems(2,3) t(1) by auto
  then show ?case using Cons.IH [OF t(2)] Cons.prems(3) by auto
qed

lemma update_active_bounds_fields:
  "width (update_active_bounds st) = width st"
  "height (update_active_bounds st) = height st"
  "max_width (update_active_bounds st) = max_width st"
  "max_height (update_active_bounds st) = max_height st"
  "grid (update_active_bounds st) = grid st"
  "chaos_mode (update_active_bounds st) = chaos_mode st"
  "chaos_probability (update_active_bounds st) = chaos_probability st"
  "rule_randomness (update_active_bounds st) = rule_randomness st"
  "bounds_margin (update_active_bounds st) = bounds_margin st"
  by (simp_all add: update_active_bounds_def Let_def)

lemma update_sizes:
  assumes "update st r = Inr (st', r')"
  shows "width st' = width st \<and> height st' = height st
         \<and> max_width st' = max_width st \<and> max_height st' = max_height st"
  using assms
  by (auto simp: update_def Let_def update_active_bounds_fields
      split: prod.splits if_splits sum.splits)

lemma expand_sizes:
  assumes "expand_grid_if_needed st target_width target_height = Inr (st', b)"
  shows "width st' = min (max (width st) target_width) (max_width st)
         \<and> height st' = min (max (height st) target_height) (max_height st)
         \<and> max_width st' = max_width st \<and> max_height st' = max_height st"
proof -
  define nw where "nw = min (max (width st) target_width) (max_width st)"
  define nh where "nh = min (max (height st) target_height) (max_height st)"
  have "width st' = nw \<and> height st' = nh
        \<and> max_width st' = max_width st \<and> max_height st' = max_height st"
  proof (cases "nw \<noteq> width st \<or> nh \<noteq> height st")
    case True
    with assms show ?thesis
      unfolding expand_grid_if_needed_def Let_def nw_def [symmetric] nh_def [symmetric]
      by (auto split: sum.splits prod.splits)
  next
    case False
    with assms show ?thesis
      unfolding expand_grid_if_needed_def Let_def nw_def [symmetric] nh_def [symmetric]
      by auto
  qed
  then show ?thesis by (simp add: nw_def nh_def)
qed

text \<open>
  Claim C6, as stated, fails: \<open>set_max_size\<close> stores the new maxima without looking at the
  current sizes. Here a 5 by 5 engine with maxima 8 by 8 is given the maxima 2 by 2.
\<close>

theorem set_max_size_breaks_within_max:
  "within_max demo_game \<and> \<not> within_max (set_max_size demo_game 2 2)"
  by (simp add: within_max_def set_max_size_def demo_game_def)

text \<open>
  Claim C6, amended. The sizes respect the maxima after the constructor exactly when its
  arguments do; \<open>update\<close> and \<open>clear\<close> keep the invariant, and every
  \<open>expand_grid_if_needed\<close> that returns establishes it. \<open>set_grid\<close> and \<open>set_max_size\<close>
  check nothing: after \<open>set_grid\<close> the invariant holds exactly when the shape of the
  pattern is within the maxima, after \<open>set_max_size\<close> exactly when the new maxima are at
  least the current sizes.
\<close>

theorem within_max_by_operation:
  "(init w h mw mh = Inr st0 \<longrightarrow> (within_max st0 \<longleftrightarrow> w \<le> mw \<and> h \<le> mh))
   \<and> (within_max st \<and> update st r = Inr (st1, r1) \<longrightarrow> within_max st1)
   \<and> (within_max st \<and> clear st = Inr st2 \<longrightarrow> within_max st2)
   \<and> (expand_grid_if_needed st target_width target_height = Inr (st3, b) \<longrightarrow> within_max st3)
   \<and> (within_max (set_grid st pattern) \<longleftrightarrow>
        int (ncols pattern) \<le> max_width st \<and> int (nrows pattern) \<le> max_height st)
   \<and> (within_max (set_max_size st mw mh) \<longleftrightarrow> width st \<le> mw \<and> height st \<le> mh)"
proof (intro conjI impI)
  assume "init w h mw mh = Inr st0"
  then show "within_max st0 \<longleftrightarrow> w \<le> mw \<and> h \<le> mh"
    by (auto simp: init_def within_max_def split: sum.splits)
next
  assume "within_max st \<and> update st r = Inr (st1, r1)"
  then show "within_max st1"
    using update_sizes [of st r st1 r1] by (simp add: within_max_def)
next
  assume "within_max st \<and> clear st = Inr st2"
  then show "within_max st2"
    by (auto simp: clear_def within_max_def Let_def split: sum.splits)
next
  assume e: "expand_grid_if_needed st target_width target_height = Inr (st3, b)"
  show "within_max st3"
    using expand_sizes [OF e] by (simp add: within_max_def)
next
  show "within_max (set_grid st pattern) \<longleftrightarrow>
          int (ncols pattern) \<le> max_width st \<and> int (nrows pattern) \<le> max_height st"
    by (simp add: set_grid_def within_max_def update_active_bounds_fields)
next
  show "within_max (set_max_size st mw mh) \<longleftrightarrow> width st \<le> mw \<and> height st \<le> mh"
    by (simp add: set_max_size_def within_max_def)
qed

theorem within_max_by_operation_witness:
  "(\<exists>st0. init 5 5 8 8 = Inr st0 \<and> within_max st0)
   \<and> within_max demo_game
   \<and> (\<exists>st1 r1. update demo_game demo_rng = Inr (st1, r1) \<and> within_max st1)
   \<and> (\<exists>st2. clear demo_game = Inr st2 \<and> within_max st2)
   \<and> (\<exists>st3 b. expand_grid_if_needed demo_game 9 6 = Inr (st3, b) \<and> within_max st3)"
proof -
  have "case init 5 5 8 8 of Inl e \<Rightarrow> False | Inr s \<Rightarrow> True"
    by (simp add: init_def np_zeros_def)
  then obtain st0 where i: "init 5 5 8 8 = Inr st0"
    by (cases "init 5 5 8 8") auto
  have "case update demo_game demo_rng of Inl e \<Rightarrow> False | Inr p \<Rightarrow> True"
    by code_simp
  then obtain st1 r1 where u: "update demo_game demo_rng = Inr (st1, r1)"
    by (cases "update demo_game demo_rng") auto
  have "case clear demo_game of Inl e \<Rightarrow> False | Inr s \<Rightarrow> True"
    by (simp add: clear_def np_zeros_def demo_game_def Let_def)
  then obtain st2 where c: "clear demo_game = Inr st2"
    by (cases "clear demo_game") auto
  have "case expand_grid_if_needed demo_game 9 6 of Inl e \<Rightarrow> False | Inr p \<Rightarrow> True"
    by code_simp
  then obtain st3 b where e: "expand_grid_if_needed demo_game 9 6 = Inr (st3, b)"
    by (cases "expand_grid_if_needed demo_game 9 6") auto
  note t = within_max_by_operation
             [where w = 5 and h = 5 and mw = 8 and mh = 8 and ?st0.0 = st0
                and st = demo_game and r = demo_rng and ?st1.0 = st1 and ?r1.0 = r1
                and ?st2.0 = st2 and target_width = 9 and target_height = 6
                and ?st3.0 = st3 and b = b]
  show ?thesis
    using t i u c e within_max_demo_game by auto
qed

subsection \<open>The cell values\<close>

lemma colours_ok_nth:
  assumes "wf_array a" "colours_ok a" "j < nrows a" "i < ncols a"
  shows "cells a ! j ! i \<le> 4"
  using assms by (auto simp: wf_array_def colours_ok_def list_all_length)

lemma np_index_bound: "np_index n i = Inr k \<Longrightarrow> k < n"
  by (auto simp: np_index_def split: if_splits)

lemma np_get_colour:
  assumes "wf_array a" "colours_ok a" "np_get a y x = Inr c"
  shows "c \<le> 4"
  using assms
  by (auto simp: np_get_def split: sum.splits dest!: np_index_bound intro: colours_ok_nth)

lemma np_set_colour:
  assumes "wf_array a" "colours_ok a" "v \<le> 4" "np_set a y x v = Inr a'"
  shows "wf_array a' \<and> colours_ok a' \<and> nrows a' = nrows a \<and> ncols a' = ncols a"
proof -
  from assms(4) obtain j i where ji: "j < nrows a" "i < ncols a"
    and a': "a' = NDArray (nrows a) (ncols a) ((cells a)[j := (cells a ! j)[i := v]])"
    by (auto simp: np_set_def split: sum.splits dest!: np_index_bound)
  have len: "length (cells a) = nrows a" "\<And>k. k < nrows a \<Longrightarrow> length (cells a ! k) = ncols a"
    using assms(1) by (auto simp: wf_array_def list_all_length)
  let ?row = "(cells a ! j)[i := v]"
  have nth: "(cells a)[j := ?row] ! k = (if k = j then ?row else cells a ! k)"
    if "k < nrows a" for k
    using that len(1) by (simp add: nth_list_update)
  have wf: "wf_array a'"
    unfolding a' wf_array_def list_all_length
    using len by (simp add: nth)
  have old: "cells a ! k ! m \<le> 4" if "k < nrows a" "m < ncols a" for k m
    using colours_ok_nth [OF assms(1,2) that] .
  have "cells a' ! k ! m \<le> 4" if "k < nrows a" "m < ncols a" for k m
    using that old [OF that] assms(3) len ji
    by (simp add: a' nth nth_list_update)
  then have "colours_ok a'"
    using wf unfolding colours_ok_def list_all_length wf_array_def
    by (simp add: a')
  with wf show ?thesis by (simp add: a')
qed

lemma dict_incr_keys: "dict_incr d k = Inr d' \<Longrightarrow> dict_keys d' = dict_keys d"
  by (force simp: dict_incr_def dict_keys_def update_keys split: option.splits
      dest!: map_of_SomeD)

lemma count_neighbor_keys:
  assumes "count_neighbor st x y d acc = Inr acc'"
  shows "dict_keys (fst acc') = dict_keys (fst acc)"
  using assms
  by (auto simp: count_neighbor_def split: sum.splits if_splits dest: dict_incr_keys)

lemma get_neighbors_by_color_keys:
  assumes "get_neighbors_by_color st x y = Inr (cc, tot, ns)"
  shows "dict_keys cc = [1, 2, 3, 4]"
proof -
  from assms obtain acc where
    acc: "for_each (count_neighbor st x y) neighbor_offsets ([(1, 0), (2, 0), (3, 0), (4, 0)], []) = Inr acc"
    and cc: "cc = fst acc"
    by (auto simp: get_neighbors_by_color_def split: sum.splits prod.splits)
  have "dict_keys (fst acc) = [1, 2, 3, 4]"
    by (rule for_each_invariant [OF acc, where I = "\<lambda>s. dict_keys (fst s) = [1, 2, 3, 4]"])
       (auto simp: dict_keys_def dest: count_neighbor_keys)
  then show ?thesis by (simp add: cc)
qed

lemma py_max_key_mem: "py_max_key f k ks \<in> set (k # ks)"
  unfolding py_max_key_def
proof (induction ks arbitrary: k)
  case Nil
  then show ?case by simp
next
  case (Cons a ks)
  let ?k = "if f k < f a then a else k"
  have "fold (\<lambda>c best. if f best < f c then c else best) ks ?k \<in> set (?k # ks)"
    by (rule Cons.IH)
  then show ?case by (auto split: if_splits)
qed

lemma get_dominant_color_range:
  assumes "dict_keys cc = [1, 2, 3, 4]" "get_dominant_color (Dict cc) = Inr d"
  shows "d \<in> {1, 2, 3, 4}"
proof (cases "sum_list (dict_values cc) = 0")
  case True
  with assms(2) show ?thesis by (simp add: get_dominant_color_def)
next
  case False
  with assms have "d = py_max_key (\<lambda>k. the (map_of cc k)) 1 [2, 3, 4]"
    by (simp add: get_dominant_color_def)
  then show ?thesis
    using py_max_key_mem [of "\<lambda>k. the (map_of cc k)" 1 "[2, 3, 4]"] by simp
qed

lemma uint8_le_4: "(c :: uint8) \<le> 4 \<Longrightarrow> 0 \<le> uint c \<and> uint c \<le> 4"
  by (simp add: word_le_def)

lemma randint_1_5_range: "0 \<le> fst (randint_1_5 r)" "fst (randint_1_5 r) \<le> 4"
  by (simp_all add: randint_1_5_def)

lemma apply_original_conway_rules_range:
  assumes "cur \<le> 4" "d \<in> {1, 2, 3, 4}"
  shows "0 \<le> apply_original_conway_rules x y cur tot d
         \<and> apply_original_conway_rules x y cur tot d \<le> 4"
  using assms uint8_le_4 [of cur]
  by (auto simp: apply_original_conway_rules_def)

lemma apply_custom_color_rules_range:
  assumes "cur \<le> 4" "d \<in> {1, 2, 3, 4}"
  shows "0 \<le> fst (apply_custom_color_rules x y cur cc tot d r)
         \<and> fst (apply_custom_color_rules x y cur cc tot d r) \<le> 4"
  using assms uint8_le_4 [of cur]
  by (auto simp: apply_custom_color_rules_def random_def Let_def split: prod.splits)

lemma random_outcome_range:
  assumes "cur \<le> 4"
  shows "0 \<le> fst (random_outcome cur r) \<and> fst (random_outcome cur r) \<le> 4"
  using assms uint8_le_4 [of cur]
  by (simp add: random_outcome_def random_def Let_def randint_1_5_range)

lemma apply_rules_range:
  assumes "cur \<le> 4" "d \<in> {1, 2, 3, 4}"
  shows "0 \<le> fst (apply_rules st x y cur cc tot d r)
         \<and> fst (apply_rules st x y cur cc tot d r) \<le> 4"
  using apply_original_conway_rules_range [OF assms] apply_custom_color_rules_range [OF assms]
    random_outcome_range [OF assms(1)]
  by (simp add: apply_rules_def random_def Let_def)

lemma word_of_int_colour: "0 \<le> v \<Longrightarrow> v \<le> 4 \<Longrightarrow> (word_of_int v :: uint8) \<le> 4"
proof -
  assume "0 \<le> v" "v \<le> 4"
  then have "v = 0 \<or> v = 1 \<or> v = 2 \<or> v = 3 \<or> v = 4" by arith
  then show ?thesis by auto
qed

lemma update_cell_colours:
  assumes "wf_array (grid st)" "colours_ok (grid st)"
    and "wf_array (fst acc)" "colours_ok (fst acc)"
    and "update_cell st p acc = Inr acc'"
  shows "wf_array (fst acc') \<and> colours_ok (fst acc')
         \<and> nrows (fst acc') = nrows (fst acc) \<and> ncols (fst acc') = ncols (fst acc)"
proof -
  from assms(5) obtain cc tot ns where
    n: "get_neighbors_by_color st (fst p) (snd p) = Inr (cc, tot, ns)"
    by (cases "get_neighbors_by_color st (fst p) (snd p)") (auto simp: update_cell_def)
  from assms(5) n obtain cur where c: "np_get (grid st) (snd p) (fst p) = Inr cur"
    by (cases "np_get (grid st) (snd p) (fst p)") (auto simp: update_cell_def)
  from assms(5) n c obtain d where d: "get_dominant_color (Dict cc) = Inr d"
    by (cases "get_dominant_color (Dict cc)") (auto simp: update_cell_def)
  obtain v r1 where a: "apply_rules st (fst p) (snd p) cur cc tot d (snd acc) = (v, r1)"
    by (cases "apply_rules st (fst p) (snd p) cur cc tot d (snd acc)") auto
  from assms(5) n c d a obtain g where
    s: "np_set (fst acc) (snd p) (fst p) (word_of_int v) = Inr g" and g: "fst acc' = g"
    by (cases "np_set (fst acc) (snd p) (fst p) (word_of_int v :: uint8)")
      (auto simp: update_cell_def)
  have "cur \<le> 4" using np_get_colour [OF assms(1,2) c] .
  moreover have "d \<in> {1, 2, 3, 4}"
    using get_dominant_color_range [OF get_neighbors_by_color_keys [OF n] d] .
  ultimately have "(word_of_int v :: uint8) \<le> 4"
    using apply_rules_range [of cur d st "fst p" "snd p" cc tot "snd acc"] a
    by (simp add: word_of_int_colour)
  from np_set_colour [OF assms(3,4) this s] show ?thesis
    by (simp add: g)
qed

lemma update_cases:
  assumes "update st r = Inr (st', r')"
  shows "(st' = update_active_bounds st \<and> r' = r)
         \<or> (\<exists>g. for_each (update_cell (update_active_bounds st))
                      (scan_cells (active_bounds (update_active_bounds st)))
                      (grid (update_active_bounds st), r) = Inr (g, r')
                \<and> st' = (update_active_bounds st)\<lparr>grid := g\<rparr>)"
proof -
  let ?st = "update_active_bounds st"
  obtain a b c d where ab: "active_bounds ?st = (a, b, c, d)"
    by (cases "active_bounds ?st") auto
  show ?thesis
  proof (cases "b - a \<le> 0 \<or> d - c \<le> 0")
    case True
    with assms ab show ?thesis
      by (simp add: update_def Let_def)
  next
    case False
    with assms ab show ?thesis
      by (cases "for_each (update_cell ?st) (scan_cells (a, b, c, d)) (grid ?st, r)")
        (auto simp: update_def Let_def)
  qed
qed

lemma update_colours:
  assumes "wf_game st" "colours_ok (grid st)" "update st r = Inr (st', r')"
  shows "wf_game st' \<and> colours_ok (grid st')"
proof -
  let ?st = "update_active_bounds st"
  have wf: "wf_array (grid ?st)" "colours_ok (grid ?st)"
    "int (nrows (grid ?st)) = height st" "int (ncols (grid ?st)) = width st"
    using assms(1,2) by (auto simp: wf_game_def update_active_bounds_fields)
  from update_cases [OF assms(3)] show ?thesis
  proof
    assume "st' = ?st \<and> r' = r"
    with wf show ?thesis
      by (simp add: wf_game_def update_active_bounds_fields)
  next
    assume "\<exists>g. for_each (update_cell ?st) (scan_cells (active_bounds ?st)) (grid ?st, r)
                  = Inr (g, r') \<and> st' = ?st\<lparr>grid := g\<rparr>"
    then obtain g where
      f: "for_each (update_cell ?st) (scan_cells (active_bounds ?st)) (grid ?st, r) = Inr (g, r')"
      and st': "st' = ?st\<lparr>grid := g\<rparr>"
      by blast
    have inv: "wf_array (fst (g, r')) \<and> colours_ok (fst (g, r'))
               \<and> nrows (fst (g, r')) = nrows (grid ?st) \<and> ncols (fst (g, r')) = ncols (grid ?st)"
    proof (rule for_each_invariant [OF f,
            where I = "\<lambda>s. wf_array (fst s) \<and> colours_ok (fst s)
                         \<and> nrows (fst s) = nrows (grid ?st) \<and> ncols (fst s) = ncols (grid ?st)"])
      show "wf_array (fst (grid ?st, r)) \<and> colours_ok (fst (grid ?st, r))
            \<and> nrows (fst (grid ?st, r)) = nrows (grid ?st)
            \<and> ncols (fst (grid ?st, r)) = ncols (grid ?st)"
        using wf by simp
    next
      fix p t t'
      assume "wf_array (fst t) \<and> colours_ok (fst t)
              \<and> nrows (fst t) = nrows (grid ?st) \<and> ncols (fst t) = ncols (grid ?st)"
        and "update_cell ?st p t = Inr t'"
      then show "wf_array (fst t') \<and> colours_ok (fst t')
                 \<and> nrows (fst t') = nrows (grid ?st) \<and> ncols (fst t') = ncols (grid ?st)"
        using update_cell_colours [OF wf(1,2), of t p t'] by simp
    qed
    with wf show ?thesis
      by (simp add: st' wf_game_def update_active_bounds_fields)
  qed
qed

lemma np_zeros_colours:
  assumes "np_zeros h w = Inr z"
  shows "wf_array z \<and> colours_ok z \<and> int (nrows z) = h \<and> int (ncols z) = w"
  using assms
  by (auto simp: np_zeros_def wf_array_def colours_ok_def list_all_iff split: if_splits)

lemma np_set_block_colours:
  assumes "wf_array a" "colours_ok a" "wf_array b" "colours_ok b"
    and "np_set_block a ys xs b = Inr g"
  shows "wf_array g \<and> colours_ok g \<and> nrows g = nrows a \<and> ncols g = ncols a"
proof -
  obtain j0 rh where sy: "py_slice (nrows a) (fst ys) (snd ys) = (j0, rh)"
    by (cases "py_slice (nrows a) (fst ys) (snd ys)") auto
  obtain i0 rw where sx: "py_slice (ncols a) (fst xs) (snd xs) = (i0, rw)"
    by (cases "py_slice (ncols a) (fst xs) (snd xs)") auto
  let ?src = "\<lambda>j i. cells b ! (if nrows b = 1 then 0 else j - j0)
                            ! (if ncols b = 1 then 0 else i - i0)"
  let ?row = "\<lambda>j. if j0 \<le> j \<and> j < j0 + rh
                   then map (\<lambda>i. if i0 \<le> i \<and> i < i0 + rw then ?src j i else cells a ! j ! i)
                          [0..<ncols a]
                   else cells a ! j"
  from assms(5) have fit: "(nrows b = rh \<or> nrows b = 1) \<and> (ncols b = rw \<or> ncols b = 1)"
    and g: "g = NDArray (nrows a) (ncols a) (map ?row [0..<nrows a])"
    by (auto simp: np_set_block_def sy sx split: if_splits)
  have la: "\<And>j. j < nrows a \<Longrightarrow> length (cells a ! j) = ncols a"
    using assms(1) by (auto simp: wf_array_def list_all_length)
  have wf: "wf_array g"
    unfolding g wf_array_def list_all_length using la by simp
  have src: "?src j i \<le> 4" if "j0 \<le> j" "j < j0 + rh" "i0 \<le> i" "i < i0 + rw" for j i
  proof -
    have "(if nrows b = 1 then 0 else j - j0) < nrows b"
      "(if ncols b = 1 then 0 else i - i0) < ncols b"
      using fit that by auto
    then show ?thesis by (rule colours_ok_nth [OF assms(3,4)])
  qed
  have "cells g ! j ! i \<le> 4" if "j < nrows a" "i < ncols a" for j i
  proof (cases "j0 \<le> j \<and> j < j0 + rh \<and> i0 \<le> i \<and> i < i0 + rw")
    case True
    then have "cells g ! j ! i = ?src j i"
      using that by (simp add: g)
    with True src [of j i] show ?thesis by simp
  next
    case False
    then have "cells g ! j ! i = cells a ! j ! i"
      using that by (auto simp: g)
    with colours_ok_nth [OF assms(1,2) that] show ?thesis by simp
  qed
  then have "colours_ok g"
    using wf unfolding colours_ok_def list_all_length wf_array_def
    by (simp add: g)
  with wf show ?thesis by (simp add: g)
qed

lemma expand_colours:
  assumes "wf_game st" "colours_ok (grid st)"
    and "expand_grid_if_needed st target_width target_height = Inr (st', b)"
  shows "colours_ok (grid st')"
proof -
  define nw where "nw = min (max (width st) target_width) (max_width st)"
  define nh where "nh = min (max (height st) target_height) (max_height st)"
  show ?thesis
  proof (cases "nw \<noteq> width st \<or> nh \<noteq> height st")
    case False
    with assms(3) have "st' = st"
      unfolding expand_grid_if_needed_def Let_def nw_def [symmetric] nh_def [symmetric]
      by auto
    with assms(2) show ?thesis by simp
  next
    case True
    with assms(3) obtain z g where z: "np_zeros nh nw = Inr z"
      and blk: "np_set_block z ((nh - height st) div 2, (nh - height st) div 2 + height st)
                  ((nw - width st) div 2, (nw - width st) div 2 + width st) (grid st) = Inr g"
      and g: "grid st' = g"
      unfolding expand_grid_if_needed_def Let_def nw_def [symmetric] nh_def [symmetric]
      by (auto split: sum.splits prod.splits)
    from np_zeros_colours [OF z] assms(1,2) np_set_block_colours [OF _ _ _ _ blk]
    show ?thesis by (simp add: g wf_game_def)
  qed
qed

lemma word_of_int_le_4: "(word_of_int v :: uint8) \<le> 4 \<longleftrightarrow> v mod 256 \<le> 4"
  by (simp add: word_le_def uint_word_of_int_eq take_bit_eq_mod)

text \<open>
  Claim C7, as stated, fails: \<open>set_grid\<close> stores the pattern cast to \<open>uint8\<close> and neither
  validates nor clamps it. Here a pattern holding 7 leaves the cell value 7 in the grid.
\<close>

theorem set_grid_stores_other_values:
  "colours_ok (grid demo_game)
   \<and> cells (grid (set_grid demo_game (NDArray 1 1 [[7]]))) = [[7]]
   \<and> \<not> colours_ok (grid (set_grid demo_game (NDArray 1 1 [[7]])))"
  by (simp add: colours_ok_def demo_game_def set_grid_def astype_uint8_def
      update_active_bounds_fields)

lemma np_zeros_dead:
  assumes "np_zeros h w = Inr z"
  shows "all_dead z"
  using assms
  by (auto simp: np_zeros_def all_dead_def list_all_iff split: if_splits)

text \<open>
  Claim C7, amended. The constructor and \<open>clear\<close> produce a well-formed grid of the
  engine's sizes whose cells are all Dead; on a well-formed state whose cells are all in
  0 to 4, \<open>update\<close> and \<open>expand_grid_if_needed\<close> return a grid whose cells are all in 0 to
  4. \<open>set_grid\<close> neither clamps nor validates: it stores every entry of an integer pattern
  modulo 256, so its grid has only the values 0 to 4 exactly when every entry of the
  pattern is 0 to 4 modulo 256.
\<close>

theorem colours_ok_by_operation:
  "(init w h mw mh = Inr st0 \<longrightarrow> wf_game st0 \<and> all_dead (grid st0))
   \<and> (clear st = Inr st2 \<longrightarrow>
        wf_array (grid st2) \<and> int (nrows (grid st2)) = height st
        \<and> int (ncols (grid st2)) = width st \<and> all_dead (grid st2))
   \<and> (wf_game st \<and> colours_ok (grid st) \<and> update st r = Inr (st1, r1)
        \<longrightarrow> colours_ok (grid st1))
   \<and> (wf_game st \<and> colours_ok (grid st)
        \<and> expand_grid_if_needed st target_width target_height = Inr (st3, b)
        \<longrightarrow> colours_ok (grid st3))
   \<and> (colours_ok (grid (set_grid st pattern)) \<longleftrightarrow>
        list_all (list_all (\<lambda>v. v mod 256 \<le> 4)) (cells pattern))"
proof (intro conjI)
  show "init w h mw mh = Inr st0 \<longrightarrow> wf_game st0 \<and> all_dead (grid st0)"
  proof
    assume "init w h mw mh = Inr st0"
    then obtain z where z: "np_zeros h w = Inr z" and st0: "grid st0 = z"
      "height st0 = h" "width st0 = w"
      by (auto simp: init_def split: sum.splits)
    from np_zeros_colours [OF z] np_zeros_dead [OF z] st0
    show "wf_game st0 \<and> all_dead (grid st0)"
      by (simp add: wf_game_def)
  qed
next
  show "clear st = Inr st2 \<longrightarrow>
          wf_array (grid st2) \<and> int (nrows (grid st2)) = height st
          \<and> int (ncols (grid st2)) = width st \<and> all_dead (grid st2)"
  proof
    assume "clear st = Inr st2"
    then obtain z where z: "np_zeros (height st) (width st) = Inr z" and st2: "grid st2 = z"
      by (auto simp: clear_def Let_def split: sum.splits)
    from np_zeros_colours [OF z] np_zeros_dead [OF z] st2
    show "wf_array (grid st2) \<and> int (nrows (grid st2)) = height st
          \<and> int (ncols (grid st2)) = width st \<and> all_dead (grid st2)"
      by simp
  qed
next
  show "wf_game st \<and> colours_ok (grid st) \<and> update st r = Inr (st1, r1)
          \<longrightarrow> colours_ok (grid st1)"
    using update_colours [of st r st1 r1] by simp
next
  show "wf_game st \<and> colours_ok (grid st)
          \<and> expand_grid_if_needed st target_width target_height = Inr (st3, b)
          \<longrightarrow> colours_ok (grid st3)"
    using expand_colours [of st target_width target_height st3 b] by simp
next
  show "colours_ok (grid (set_grid st pattern)) \<longleftrightarrow>
          list_all (list_all (\<lambda>v. v mod 256 \<le> 4)) (cells pattern)"
    by (simp add: set_grid_def update_active_bounds_fields astype_uint8_def colours_ok_def
        list_all_iff word_of_int_le_4)
qed

lemma colours_ok_demo_game: "colours_ok (grid demo_game)"
  by (simp add: colours_ok_def demo_game_def)

theorem colours_ok_by_operation_witness:
  "(\<exists>st0. init 5 5 8 8 = Inr st0 \<and> wf_game st0 \<and> all_dead (grid st0))
   \<and> (\<exists>st2. clear demo_game = Inr st2 \<and> all_dead (grid st2))
   \<and> wf_game demo_game \<and> colours_ok (grid demo_game)
   \<and> (\<exists>st1 r1. update demo_game demo_rng = Inr (st1, r1) \<and> colours_ok (grid st1))
   \<and> (\<exists>st3 b. expand_grid_if_needed demo_game 9 6 = Inr (st3, b) \<and> colours_ok (grid st3))
   \<and> colours_ok (grid (set_grid demo_game (NDArray 1 2 [[258, 3]])))"
proof -
  have "case init 5 5 8 8 of Inl e \<Rightarrow> False | Inr s \<Rightarrow> True"
    by (simp add: init_def np_zeros_def)
  then obtain st0 where i: "init 5 5 8 8 = Inr st0"
    by (cases "init 5 5 8 8") auto
  have "case update demo_game demo_rng of Inl e \<Rightarrow> False | Inr p \<Rightarrow> True"
    by code_simp
  then obtain st1 r1 where u: "update demo_game demo_rng = Inr (st1, r1)"
    by (cases "update demo_game demo_rng") auto
  have "case clear demo_game of Inl e \<Rightarrow> False | Inr s \<Rightarrow> True"
    by (simp add: clear_def np_zeros_def demo_game_def Let_def)
  then obtain st2 where c: "clear demo_game = Inr st2"
    by (cases "clear demo_game") auto
  have "case expand_grid_if_needed demo_game 9 6 of Inl e \<Rightarrow> False | Inr p \<Rightarrow> True"
    by code_simp
  then obtain st3 b where e: "expand_grid_if_needed demo_game 9 6 = Inr (st3, b)"
    by (cases "expand_grid_if_needed demo_game 9 6") auto
  note t = colours_ok_by_operation
             [where w = 5 and h = 5 and mw = 8 and mh = 8 and ?st0.0 = st0
                and st = demo_game and r = demo_rng and ?st1.0 = st1 and ?r1.0 = r1
                and ?st2.0 = st2 and target_width = 9 and target_height = 6
                and ?st3.0 = st3 and b = b and pattern = "NDArray 1 2 [[258, 3]]"]
  show ?thesis
    using t i u c e wf_demo_game colours_ok_demo_game by auto
qed

subsection \<open>The dispatch\<close>

lemma as_dict_dict_tally:
  assumes "dict_keys cc = [1, 2, 3, 4]"
  shows "as_dict (dict_tally cc) = cc"
proof -
  from assms obtain a b c e where "cc = [(1, a), (2, b), (3, c), (4, e)]"
    by (auto simp: dict_keys_def map_eq_Cons_conv)
  then show ?thesis
    by (simp add: as_dict_def dict_tally_def dict_get_def)
qed

lemma custom_rules_spec:
  assumes "0 \<le> dominant"
  shows "apply_custom_color_rules x y cur (as_dict t) tot dominant r =
     (spec_custom_rules (uint cur) t tot dominant (floats r (drawn r)),
      skip (spec_custom_draws (uint cur) tot) r)"
  using assms
  by (auto simp add: apply_custom_color_rules_def spec_custom_rules_def spec_custom_draws_def
      skip_def random_def max_color_count_as_dict dict_get_as_dict uint8_pos_iff
      simp del: Max_insert)

lemma original_rules_spec:
  assumes "0 \<le> dominant"
  shows "apply_original_conway_rules x y cur tot dominant =
           spec_original_rules (uint cur) tot dominant"
  using assms
  by (auto simp: apply_original_conway_rules_def spec_original_rules_def uint8_pos_iff)

lemma random_outcome_spec:
  "random_outcome cur r =
     (spec_random_outcome (uint cur) (float_ahead r 0) (colour_ahead r 1),
      skip (spec_random_draws (uint cur) (float_ahead r 0)) r)"
  by (simp add: random_outcome_def spec_random_outcome_def spec_random_draws_def random_def
      randint_1_5_def float_ahead_def colour_ahead_def skip_def uint8_pos_iff numeral_2_eq_2)

lemma apply_rules_spec:
  assumes "0 \<le> dominant"
  shows "apply_rules st x y cur (as_dict t) tot dominant r =
           (fst (spec_cell_rule (chaos_mode st) (rule_randomness st) (chaos_probability st)
                   (uint cur) t tot dominant (float_ahead r) (colour_ahead r)),
            skip (snd (spec_cell_rule (chaos_mode st) (rule_randomness st) (chaos_probability st)
                         (uint cur) t tot dominant (float_ahead r) (colour_ahead r))) r)"
proof (cases "chaos_mode st")
  case False
  then show ?thesis
    using custom_rules_spec [OF assms, of x y cur t tot r]
    by (simp add: apply_rules_def spec_cell_rule_def spec_choice_def float_ahead_def)
next
  case True
  let ?r1 = "r\<lparr>drawn := drawn r + 1\<rparr>" and ?r2 = "r\<lparr>drawn := drawn r + 2\<rparr>"
  have ro: "random_outcome cur ?r1 =
              (spec_random_outcome (uint cur) (float_ahead r 1) (colour_ahead r 2),
               skip (1 + spec_random_draws (uint cur) (float_ahead r 1)) r)"
    by (simp add: random_outcome_spec float_ahead_def colour_ahead_def skip_def
        numeral_2_eq_2 add.assoc)
  have cu: "apply_custom_color_rules x y cur (as_dict t) tot dominant ?r2 =
              (spec_custom_rules (uint cur) t tot dominant (float_ahead r 2),
               skip (2 + spec_custom_draws (uint cur) tot) r)"
    by (simp add: custom_rules_spec [OF assms] float_ahead_def skip_def add.assoc)
  show ?thesis
    using True ro cu original_rules_spec [OF assms, of x y cur tot]
    by (simp add: apply_rules_def spec_cell_rule_def spec_choice_def random_def Let_def
        float_ahead_def skip_def numeral_2_eq_2)
qed

text \<open>
  Claim C3. For every cell the loop of \<open>update\<close> scans, the value written and the draws
  made are those of section 4.3: when chaos is enabled and the first draw is below
  \<open>rule_randomness\<close>, the random-outcome rule and no other; else, when chaos is enabled and
  a second draw is below \<open>chaos_probability\<close>, the custom colour rules; else, when chaos is
  enabled, the original monochrome rules; and when chaos is disabled the custom colour
  rules, with no dispatch draw. (The reads before the rules and the write after them raise
  as the source does.)
\<close>

theorem update_cell_dispatch:
  "update_cell st p (g, r) =
     (case get_neighbors_by_color st (fst p) (snd p) of
        Inl e \<Rightarrow> Inl e
      | Inr (cc, tot, ns) \<Rightarrow>
          (case np_get (grid st) (snd p) (fst p) of
             Inl e \<Rightarrow> Inl e
           | Inr cur \<Rightarrow>
               (case get_dominant_color (Dict cc) of
                  Inl e \<Rightarrow> Inl e
                | Inr d \<Rightarrow>
                    (case np_set g (snd p) (fst p)
                            (word_of_int
                               (fst (spec_cell_rule (chaos_mode st) (rule_randomness st)
                                       (chaos_probability st) (uint cur) (dict_tally cc) tot d
                                       (float_ahead r) (colour_ahead r)))) of
                       Inl e \<Rightarrow> Inl e
                     | Inr g' \<Rightarrow>
                         Inr (g',
                              skip (snd (spec_cell_rule (chaos_mode st) (rule_randomness st)
                                           (chaos_probability st) (uint cur) (dict_tally cc) tot d
                                           (float_ahead r) (colour_ahead r))) r)))))"
proof (cases "get_neighbors_by_color st (fst p) (snd p)")
  case (Inl e)
  then show ?thesis by (simp add: update_cell_def)
next
  case (Inr n)
  obtain cc tot ns where n: "n = (cc, tot, ns)" by (cases n) auto
  have keys: "dict_keys cc = [1, 2, 3, 4]"
    using get_neighbors_by_color_keys [of st "fst p" "snd p" cc tot ns] Inr n by simp
  show ?thesis
  proof (cases "np_get (grid st) (snd p) (fst p)")
    case (Inl e)
    with Inr n show ?thesis by (simp add: update_cell_def)
  next
    case cur: (Inr cur)
    show ?thesis
    proof (cases "get_dominant_color (Dict cc)")
      case (Inl e)
      with Inr n cur show ?thesis by (simp add: update_cell_def)
    next
      case d: (Inr d)
      have "0 \<le> d"
        using get_dominant_color_range [OF keys d] by auto
      from apply_rules_spec [OF this, of st "fst p" "snd p" cur "dict_tally cc" tot r]
      show ?thesis
        using Inr n cur d
        by (simp add: update_cell_def as_dict_dict_tally [OF keys] split: sum.splits)
    qed
  qed
qed

subsection \<open>Determinism without chaos\<close>

text \<open>
  Claim C1, as stated, fails: with chaos off the custom rules still draw from the random
  source for every living cell with five or more neighbours. From the same 3 by 3 block,
  \<open>update\<close> makes five draws and returns a different grid when the draws are 1/2 (the
  crowded cells die) than when they are 9/10 (they live).
\<close>

theorem update_without_chaos_depends_on_draws:
  "\<not> chaos_mode block_game
   \<and> \<not> isl (update block_game demo_rng) \<and> \<not> isl (update block_game late_rng)
   \<and> cells (grid (fst (projr (update block_game demo_rng)))) =
       [[0, 0, 2, 0, 0], [0, 2, 0, 2, 0], [2, 0, 0, 0, 2], [0, 2, 0, 2, 0], [0, 0, 2, 0, 0]]
   \<and> cells (grid (fst (projr (update block_game late_rng)))) =
       [[0, 0, 2, 0, 0], [0, 2, 2, 2, 0], [2, 2, 2, 2, 2], [0, 2, 2, 2, 0], [0, 0, 2, 0, 0]]
   \<and> drawn demo_rng = 0 \<and> drawn (snd (projr (update block_game demo_rng))) = 5"
  by code_simp

lemma apply_custom_color_rules_no_draw:
  assumes "\<not> (cur > 0 \<and> tot \<ge> 5)"
  shows "apply_custom_color_rules x y cur cc tot d r =
           (fst (apply_custom_color_rules x y cur cc tot d r0), r)"
  using assms by (auto simp: apply_custom_color_rules_def)

lemma update_cell_calm:
  assumes "\<not> chaos_mode st" "\<not> overcrowded st p"
  shows "update_cell st p (g, r) =
           (case update_cell st p (g, r0) of Inl e \<Rightarrow> Inl e | Inr (g', r') \<Rightarrow> Inr (g', r))"
proof (cases "get_neighbors_by_color st (fst p) (snd p)")
  case (Inl e)
  then show ?thesis by (simp add: update_cell_def)
next
  case (Inr n)
  obtain cc tot ns where n: "n = (cc, tot, ns)" by (cases n) auto
  show ?thesis
  proof (cases "np_get (grid st) (snd p) (fst p)")
    case (Inl e)
    with Inr n show ?thesis by (simp add: update_cell_def)
  next
    case cur: (Inr cur)
    show ?thesis
    proof (cases "get_dominant_color (Dict cc)")
      case (Inl e)
      with Inr n cur show ?thesis by (simp add: update_cell_def)
    next
      case d: (Inr d)
      have nd: "\<not> (cur > 0 \<and> tot \<ge> 5)"
        using assms(2) Inr n cur by (simp add: overcrowded_def)
      define v where "v = fst (apply_custom_color_rules (fst p) (snd p) cur cc tot d r0)"
      have a: "apply_rules st (fst p) (snd p) cur cc tot d r' = (v, r')" for r'
        using assms(1) apply_custom_color_rules_no_draw [OF nd, of "fst p" "snd p" cc d r' r0]
        by (simp add: apply_rules_def v_def)
      show ?thesis
        using Inr n cur d
        by (simp add: update_cell_def a split: sum.splits)
    qed
  qed
qed

lemma for_each_update_cell_calm:
  assumes "\<not> chaos_mode st" "\<forall>p \<in> set ps. \<not> overcrowded st p"
  shows "for_each (update_cell st) ps (g, r) =
           (case for_each (update_cell st) ps (g, r0) of
              Inl e \<Rightarrow> Inl e | Inr (g', r') \<Rightarrow> Inr (g', r))"
  using assms(2)
proof (induction ps arbitrary: g)
  case Nil
  then show ?case by simp
next
  case (Cons p ps)
  have np: "\<not> overcrowded st p" and rest: "\<forall>q \<in> set ps. \<not> overcrowded st q"
    using Cons.prems by auto
  show ?case
  proof (cases "update_cell st p (g, r0)")
    case (Inl e)
    then show ?thesis
      using update_cell_calm [OF assms(1) np, of g r r0] by simp
  next
    case (Inr t)
    obtain g1 r1 where t: "t = (g1, r1)" by (cases t) auto
    have "r1 = r0"
      using update_cell_calm [OF assms(1) np, of g r0 r0] Inr t by simp
    moreover have "update_cell st p (g, r) = Inr (g1, r)"
      using update_cell_calm [OF assms(1) np, of g r r0] Inr t by simp
    ultimately show ?thesis
      using Inr t Cons.IH [OF rest, of g1] by simp
  qed
qed

text \<open>
  Claim C1, amended. With chaos off and no living cell with five or more neighbours in
  the scanned rectangle, \<open>update\<close> consults no randomness: either it raises the same
  exception whatever the state of the random source, or it returns one and the same state
  whatever the state of the random source, and leaves that source as it found it. (With a
  crowded living cell the result depends on the draws.)
\<close>

theorem update_calm_without_chaos_deterministic:
  assumes "\<not> chaos_mode st" "calm st"
  shows "(\<exists>e. \<forall>r. update st r = Inl e) \<or> (\<exists>st'. \<forall>r. update st r = Inr (st', r))"
proof -
  let ?st = "update_active_bounds st"
  let ?r0 = "\<lparr>floats = (\<lambda>n. 0), integers = (\<lambda>n. 0), drawn = 0\<rparr>"
  obtain a b c d where ab: "active_bounds ?st = (a, b, c, d)"
    by (cases "active_bounds ?st") auto
  have ch: "\<not> chaos_mode ?st"
    using assms(1) by (simp add: update_active_bounds_fields)
  have cl: "\<forall>p \<in> set (scan_cells (a, b, c, d)). \<not> overcrowded ?st p"
    using assms(2) ab by (simp add: calm_def list_all_iff)
  note fe = for_each_update_cell_calm [OF ch cl, of "grid ?st" _ ?r0]
  show ?thesis
  proof (cases "b - a \<le> 0 \<or> d - c \<le> 0")
    case True
    then have "update st r = Inr (?st, r)" for r
      using ab by (simp add: update_def Let_def)
    then show ?thesis by blast
  next
    case False
    show ?thesis
    proof (cases "for_each (update_cell ?st) (scan_cells (a, b, c, d)) (grid ?st, ?r0)")
      case (Inl e)
      then have "update st r = Inl e" for r
        using ab False fe [of r] by (simp add: update_def Let_def)
      then show ?thesis by blast
    next
      case (Inr t)
      obtain g r1 where t: "t = (g, r1)" by (cases t) auto
      have "update st r = Inr (?st\<lparr>grid := g\<rparr>, r)" for r
        using ab False fe [of r] Inr t by (simp add: update_def Let_def)
      then show ?thesis by blast
    qed
  qed
qed

theorem update_calm_without_chaos_deterministic_witness:
  "\<not> chaos_mode demo_game \<and> calm demo_game
   \<and> (\<exists>st'. \<forall>r. update demo_game r = Inr (st', r))"
proof -
  have c: "\<not> chaos_mode demo_game" by (simp add: demo_game_def)
  have k: "calm demo_game" by code_simp
  have "\<not> isl (update demo_game demo_rng)" by code_simp
  then have "\<not> (\<exists>e. \<forall>r. update demo_game r = Inl e)"
    by (metis sum.disc(1))
  with update_calm_without_chaos_deterministic [OF c k] c k show ?thesis
    by blast
qed

subsection \<open>The neighbour query on a readable grid\<close>

lemma np_get_inside:
  assumes "0 \<le> y" "y < int (nrows a)" "0 \<le> x" "x < int (ncols a)"
  shows "np_get a y x = Inr (cells a ! nat y ! nat x)"
  using assms by (simp add: np_get_def np_index_def)

lemma neighbor_at_colour:
  assumes "wf_game st" "colours_ok (grid st)" "0 < width st" "0 < height st"
  shows "neighbor_at st x y d \<le> 4"
proof -
  have "nat ((y + snd d) mod height st) < nrows (grid st)"
    "nat ((x + fst d) mod width st) < ncols (grid st)"
    using assms by (auto simp: wf_game_def nat_less_iff)
  then show ?thesis
    using assms(1,2) unfolding neighbor_at_def
    by (intro colours_ok_nth) (auto simp: wf_game_def)
qed

lemma uint8_colour_cases:
  assumes "(c :: uint8) \<le> 4" "c \<noteq> 0"
  shows "uint c = 1 \<or> uint c = 2 \<or> uint c = 3 \<or> uint c = 4"
proof -
  have "0 \<le> uint c" "uint c \<le> 4" using assms(1) by (simp_all add: word_le_def)
  moreover have "uint c \<noteq> 0" using assms(2) by (simp add: uint_0_iff)
  ultimately show ?thesis by arith
qed

lemma count_neighbor_step:
  assumes "wf_game st" "colours_ok (grid st)" "0 < width st" "0 < height st"
  shows "count_neighbor st x y d ([(1, a), (2, b), (3, c), (4, e)], ns) =
           Inr ([(1, a + tally_count (living_neighbors st x y [d]) 1),
                 (2, b + tally_count (living_neighbors st x y [d]) 2),
                 (3, c + tally_count (living_neighbors st x y [d]) 3),
                 (4, e + tally_count (living_neighbors st x y [d]) 4)],
                ns @ living_neighbors st x y [d])"
proof -
  let ?ny = "(y + snd d) mod height st" and ?nx = "(x + fst d) mod width st"
  have rng: "0 \<le> ?ny" "?ny < int (nrows (grid st))" "0 \<le> ?nx" "?nx < int (ncols (grid st))"
    using assms by (auto simp: wf_game_def)
  have get: "np_get (grid st) ?ny ?nx = Inr (neighbor_at st x y d)"
    using np_get_inside [OF rng] by (simp add: neighbor_at_def)
  show ?thesis
  proof (cases "neighbor_at st x y d = 0")
    case True
    then show ?thesis
      using assms(3,4) get
      by (simp add: count_neighbor_def py_mod_def living_neighbors_def tally_count_def)
  next
    case False
    then have pos: "neighbor_at st x y d > 0"
      by (simp add: word_greater_zero_iff)
    from uint8_colour_cases [OF neighbor_at_colour [OF assms] False]
    show ?thesis
      using assms(3,4) get pos False
      by (auto simp: count_neighbor_def py_mod_def living_neighbors_def tally_count_def
          dict_incr_def)
  qed
qed

lemma living_neighbors_Cons:
  "living_neighbors st x y (d # ds) = living_neighbors st x y [d] @ living_neighbors st x y ds"
  by (simp add: living_neighbors_def)

lemma tally_count_append: "tally_count (xs @ ys) k = tally_count xs k + tally_count ys k"
  by (simp add: tally_count_def)

lemma for_each_count_neighbor:
  assumes "wf_game st" "colours_ok (grid st)" "0 < width st" "0 < height st"
  shows "for_each (count_neighbor st x y) ds ([(1, a), (2, b), (3, c), (4, e)], ns) =
           Inr ([(1, a + tally_count (living_neighbors st x y ds) 1),
                 (2, b + tally_count (living_neighbors st x y ds) 2),
                 (3, c + tally_count (living_neighbors st x y ds) 3),
                 (4, e + tally_count (living_neighbors st x y ds) 4)],
                ns @ living_neighbors st x y ds)"
proof (induction ds arbitrary: a b c e ns)
  case Nil
  then show ?case by (simp add: living_neighbors_def tally_count_def)
next
  case (Cons d ds)
  show ?case
    by (simp only: for_each.simps count_neighbor_step [OF assms] sum.case Cons.IH
        living_neighbors_Cons [of st x y d ds] tally_count_append append_assoc add.assoc)
qed

lemma tally_count_total:
  assumes "\<forall>c \<in> set ns. c \<le> 4 \<and> c \<noteq> 0"
  shows "tally_count ns 1 + tally_count ns 2 + tally_count ns 3 + tally_count ns 4
           = int (length ns)"
  using assms
proof (induction ns)
  case Nil
  then show ?case by (simp add: tally_count_def)
next
  case (Cons c ns)
  then have "uint c = 1 \<or> uint c = 2 \<or> uint c = 3 \<or> uint c = 4"
    using uint8_colour_cases [of c] by simp
  moreover have "tally_count ns 1 + tally_count ns 2 + tally_count ns 3 + tally_count ns 4
                   = int (length ns)"
    using Cons by simp
  ultimately show ?case
    by (auto simp: tally_count_def)
qed

lemma get_neighbors_by_color_readable:
  assumes "wf_game st" "colours_ok (grid st)" "0 < width st" "0 < height st"
  shows "get_neighbors_by_color st x y =
           Inr (tally_dict (living_neighbors st x y neighbor_offsets),
                int (length (living_neighbors st x y neighbor_offsets)),
                living_neighbors st x y neighbor_offsets)"
proof -
  let ?ns = "living_neighbors st x y neighbor_offsets"
  have "\<forall>c \<in> set ?ns. c \<le> 4 \<and> c \<noteq> 0"
    using neighbor_at_colour [OF assms] by (auto simp: living_neighbors_def)
  from tally_count_total [OF this] show ?thesis
    using for_each_count_neighbor [OF assms, of x y neighbor_offsets 0 0 0 0 "[]"]
    by (simp add: get_neighbors_by_color_def tally_dict_def dict_values_def)
qed

subsection \<open>A generation under the original rules\<close>

lemma np_set_inside:
  assumes "0 \<le> snd p" "snd p < int (nrows a)" "0 \<le> fst p" "fst p < int (ncols a)"
  shows "np_set a (snd p) (fst p) v = Inr (put a p v)"
  using assms by (simp add: np_set_def np_index_def put_def)

lemma put_shape: "nrows (put a p v) = nrows a" "ncols (put a p v) = ncols a"
  by (simp_all add: put_def)

lemma put_wf:
  assumes "wf_array a"
  shows "wf_array (put a p v)"
proof -
  have len: "length (cells a) = nrows a" "\<And>k. k < nrows a \<Longrightarrow> length (cells a ! k) = ncols a"
    using assms by (auto simp: wf_array_def list_all_length)
  have nth: "(cells a)[j := row] ! k = (if k = j then row else cells a ! k)"
    if "k < nrows a" for k j row
    using that len(1) by (simp add: nth_list_update)
  show ?thesis
    unfolding wf_array_def list_all_length put_def
    using len by (simp add: nth)
qed

lemma put_nth:
  assumes "wf_array a" "j < nrows a" "i < ncols a"
    and "0 \<le> snd p" "snd p < int (nrows a)" "0 \<le> fst p" "fst p < int (ncols a)"
  shows "cells (put a p v) ! j ! i = (if p = (int i, int j) then v else cells a ! j ! i)"
proof -
  have len: "length (cells a) = nrows a" "\<And>k. k < nrows a \<Longrightarrow> length (cells a ! k) = ncols a"
    using assms(1) by (auto simp: wf_array_def list_all_length)
  have p: "p = (int i, int j) \<longleftrightarrow> nat (snd p) = j \<and> nat (fst p) = i"
    using assms(4,6) by (cases p) auto
  have "nat (snd p) < nrows a" "nat (fst p) < ncols a"
    using assms(4-7) by auto
  then show ?thesis
    using len assms(2,3) by (auto simp: put_def p nth_list_update)
qed

lemma fold_put_shape:
  "nrows (fold (\<lambda>p g. put g p (f p)) ps a) = nrows a
   \<and> ncols (fold (\<lambda>p g. put g p (f p)) ps a) = ncols a
   \<and> (wf_array a \<longrightarrow> wf_array (fold (\<lambda>p g. put g p (f p)) ps a))"
  by (induction ps arbitrary: a) (simp_all add: put_shape put_wf)

lemma fold_put_nth:
  assumes "wf_array a" "j < nrows a" "i < ncols a"
    and "\<forall>p \<in> set ps. 0 \<le> snd p \<and> snd p < int (nrows a) \<and> 0 \<le> fst p \<and> fst p < int (ncols a)"
  shows "cells (fold (\<lambda>p g. put g p (f p)) ps a) ! j ! i =
           (if (int i, int j) \<in> set ps then f (int i, int j) else cells a ! j ! i)"
  using assms
proof (induction ps arbitrary: a rule: rev_induct)
  case Nil
  then show ?case by simp
next
  case (snoc p ps)
  let ?g = "fold (\<lambda>p g. put g p (f p)) ps a"
  have sh: "nrows ?g = nrows a" "ncols ?g = ncols a" "wf_array ?g"
    using fold_put_shape [of f ps a] snoc.prems(1) by auto
  have inr: "0 \<le> snd p" "snd p < int (nrows ?g)" "0 \<le> fst p" "fst p < int (ncols ?g)"
    using snoc.prems(4) sh by auto
  have ih: "cells ?g ! j ! i = (if (int i, int j) \<in> set ps then f (int i, int j) else cells a ! j ! i)"
    using snoc.IH [OF snoc.prems(1,2,3)] snoc.prems(4) by simp
  have "cells (put ?g p (f p)) ! j ! i = (if p = (int i, int j) then f p else cells ?g ! j ! i)"
    using put_nth [OF sh(3) _ _ inr] snoc.prems(2,3) sh by simp
  with ih show ?case by auto
qed

lemma rng_ok_skip: "rng_ok (skip n r) = rng_ok r"
  by (simp add: rng_ok_def skip_def)

lemma skip_skip: "skip m (skip n r) = skip (n + m) r"
  by (simp add: skip_def add.assoc)

lemma apply_rules_forced_original:
  assumes "forced_original st" "rng_ok r"
  shows "apply_rules st x y cur cc tot d r =
           (apply_original_conway_rules x y cur tot d, skip 2 r)"
proof -
  have "\<not> floats r (drawn r) < 0" "\<not> floats r (Suc (drawn r)) < 0"
    using assms(2) by (simp_all add: rng_ok_def not_less)
  then show ?thesis
    using assms(1)
    by (simp add: apply_rules_def forced_original_def random_def skip_def numeral_2_eq_2)
qed

lemma update_cell_forced_original:
  assumes "wf_game st" "colours_ok (grid st)" "forced_original st" "rng_ok r" "on_grid st p"
    and "nrows g = nrows (grid st)" "ncols g = ncols (grid st)"
  shows "update_cell st p (g, r) = Inr (put g p (original_value st p), skip 2 r)"
proof -
  have pos: "0 < width st" "0 < height st"
    using assms(5) by (auto simp: on_grid_def)
  have sh: "int (nrows (grid st)) = height st" "int (ncols (grid st)) = width st"
    using assms(1) by (auto simp: wf_game_def)
  have inr: "0 \<le> snd p" "snd p < int (nrows (grid st))" "0 \<le> fst p" "fst p < int (ncols (grid st))"
    using assms(5) sh by (auto simp: on_grid_def)
  let ?ns = "living_neighbors st (fst p) (snd p) neighbor_offsets"
  obtain d where d: "get_dominant_color (Dict (tally_dict ?ns)) = Inr d"
    by (simp add: tally_dict_def dominant_dict_closed)
  have cur: "np_get (grid st) (snd p) (fst p) = Inr (cell st (fst p) (snd p))"
    using np_get_inside [OF inr] by (simp add: cell_def)
  have set: "np_set g (snd p) (fst p) v = Inr (put g p v)" for v
    using np_set_inside [of p g v] inr assms(6,7) by simp
  show ?thesis
    by (simp add: update_cell_def get_neighbors_by_color_readable [OF assms(1,2) pos] cur d
        apply_rules_forced_original [OF assms(3,4)] set original_value_def Let_def)
qed

lemma for_each_forced_original:
  assumes "wf_game st" "colours_ok (grid st)" "forced_original st" "rng_ok r"
    and "\<forall>p \<in> set ps. on_grid st p"
    and "nrows g = nrows (grid st)" "ncols g = ncols (grid st)"
  shows "for_each (update_cell st) ps (g, r) =
           Inr (fold (\<lambda>p g. put g p (original_value st p)) ps g, skip (2 * length ps) r)"
  using assms(4-7)
proof (induction ps arbitrary: g r)
  case Nil
  then show ?case by (simp add: skip_def)
next
  case (Cons p ps)
  have p: "on_grid st p" and ps: "\<forall>q \<in> set ps. on_grid st q"
    using Cons.prems(2) by auto
  have step: "update_cell st p (g, r) = Inr (put g p (original_value st p), skip 2 r)"
    by (rule update_cell_forced_original [OF assms(1,2,3) Cons.prems(1) p Cons.prems(3,4)])
  have "for_each (update_cell st) ps (put g p (original_value st p), skip 2 r) =
          Inr (fold (\<lambda>p g. put g p (original_value st p)) ps (put g p (original_value st p)),
               skip (2 * length ps) (skip 2 r))"
    using Cons.IH [of "skip 2 r" "put g p (original_value st p)"] Cons.prems(1,3,4) ps
    by (simp add: rng_ok_skip put_shape)
  with step show ?case
    by (simp add: skip_skip)
qed

lemma set_scan_cells:
  "p \<in> set (scan_cells (a, b, c, d)) \<longleftrightarrow> a \<le> fst p \<and> fst p < b \<and> c \<le> snd p \<and> snd p < d"
  by (cases p) (force simp: scan_cells_def)

lemma neighbor_at_update_active_bounds:
  "neighbor_at (update_active_bounds st) = neighbor_at st"
  by (intro ext) (simp add: neighbor_at_def update_active_bounds_fields)

lemma cell_update_active_bounds: "cell (update_active_bounds st) = cell st"
  by (intro ext) (simp add: cell_def update_active_bounds_fields)

lemma original_value_update_active_bounds:
  "original_value (update_active_bounds st) p = original_value st p"
  by (simp add: original_value_def living_neighbors_def neighbor_at_update_active_bounds
      cell_update_active_bounds cong: sum.case_cong)

lemma alive_bounds_on_grid:
  assumes "wf_game st" "alive_set (grid st) \<noteq> {}" "0 \<le> m"
    and "grow_and_clamp m (width st) (height st) (tight_box (alive_set (grid st))) = (a, b, c, d)"
  shows "0 \<le> a \<and> a < b \<and> b \<le> width st \<and> 0 \<le> c \<and> c < d \<and> d \<le> height st"
proof -
  from assms(2) obtain p where p: "p \<in> alive_set (grid st)" by auto
  from inside_grown_box [OF assms(1) p assms(3)] assms(4)
  have "a \<le> int (snd p)" "int (snd p) < b" "c \<le> int (fst p)" "int (fst p) < d"
    by (simp_all add: inside_def)
  moreover have "0 \<le> a" "b \<le> width st" "0 \<le> c" "d \<le> height st"
    using assms(4) by (auto simp: grow_and_clamp_def tight_box_def)
  ultimately show ?thesis by linarith
qed

lemma update_forced_original_alive:
  assumes "wf_game st" "colours_ok (grid st)" "forced_original st" "rng_ok r"
    and "bounds_margin st = 5" "alive_set (grid st) \<noteq> {}"
  shows "\<exists>g n. update st r = Inr ((update_active_bounds st)\<lparr>grid := g\<rparr>, skip n r)
           \<and> wf_array g \<and> nrows g = nrows (grid st) \<and> ncols g = ncols (grid st)
           \<and> (\<forall>j < nrows (grid st). \<forall>i < ncols (grid st).
                 cells g ! j ! i =
                   (if inside (active_bounds (update_active_bounds st)) (j, i)
                    then original_value st (int i, int j) else cells (grid st) ! j ! i))"
proof -
  let ?st = "update_active_bounds st"
  obtain a b c d where ab: "active_bounds ?st = (a, b, c, d)"
    by (cases "active_bounds ?st") auto
  have box: "grow_and_clamp 5 (width st) (height st) (tight_box (alive_set (grid st))) = (a, b, c, d)"
    using update_active_bounds_alive [OF assms(1,6)] ab assms(5) by simp
  have bnd: "0 \<le> a" "a < b" "b \<le> width st" "0 \<le> c" "c < d" "d \<le> height st"
    using alive_bounds_on_grid [OF assms(1,6) _ box] by auto
  have wf': "wf_game ?st" "colours_ok (grid ?st)" "forced_original ?st"
    using assms(1,2,3) by (simp_all add: wf_game_def forced_original_def update_active_bounds_fields)
  have sh: "int (nrows (grid st)) = height st" "int (ncols (grid st)) = width st"
    "wf_array (grid st)"
    using assms(1) by (auto simp: wf_game_def)
  let ?ps = "scan_cells (a, b, c, d)"
  have on: "\<forall>p \<in> set ?ps. on_grid ?st p"
    using bnd by (auto simp: set_scan_cells on_grid_def update_active_bounds_fields)
  let ?g = "fold (\<lambda>p g. put g p (original_value ?st p)) ?ps (grid ?st)"
  have fe: "for_each (update_cell ?st) ?ps (grid ?st, r) = Inr (?g, skip (2 * length ?ps) r)"
    by (rule for_each_forced_original [OF wf' assms(4) on]) simp_all
  have run: "update st r = Inr (?st\<lparr>grid := ?g\<rparr>, skip (2 * length ?ps) r)"
    using ab bnd fe by (simp add: update_def Let_def)
  have gs: "nrows ?g = nrows (grid st)" "ncols ?g = ncols (grid st)" "wf_array ?g"
    using fold_put_shape [of "original_value ?st" ?ps "grid ?st"] sh(3)
    by (simp_all add: update_active_bounds_fields)
  have rngs: "\<forall>p \<in> set ?ps. 0 \<le> snd p \<and> snd p < int (nrows (grid ?st))
                 \<and> 0 \<le> fst p \<and> fst p < int (ncols (grid ?st))"
    using on sh by (auto simp: on_grid_def update_active_bounds_fields)
  have pt: "cells ?g ! j ! i =
              (if inside (active_bounds ?st) (j, i)
               then original_value st (int i, int j) else cells (grid st) ! j ! i)"
    if "j < nrows (grid st)" "i < ncols (grid st)" for j i
    using fold_put_nth [of "grid ?st" j i ?ps "original_value ?st"] that sh(3) rngs
    by (simp add: update_active_bounds_fields original_value_update_active_bounds
        set_scan_cells inside_def ab)
  show ?thesis
    using run gs pt by blast
qed

subsection \<open>One colour: Conway's rule\<close>

lemma neighbor_offsets_list:
  "neighbor_offsets = [(-1, -1), (-1, 0), (-1, 1), (0, -1), (0, 1), (1, -1), (1, 0), (1, 1)]"
  by (simp add: neighbor_offsets_def)

lemma painted_shape: "nrows (painted W H P c) = H" "ncols (painted W H P c) = W"
  "wf_array (painted W H P c)"
  by (simp_all add: painted_def wf_array_def list_all_iff)

lemma painted_nth:
  assumes "j < H" "i < W"
  shows "cells (painted W H P c) ! j ! i = (if P (int i) (int j) then c else 0)"
  using assms by (simp add: painted_def)

lemma painted_colours: "c \<le> 4 \<Longrightarrow> colours_ok (painted W H P c)"
  by (auto simp: colours_ok_def painted_def list_all_iff)

lemma ndarray_eqI:
  assumes "wf_array a" "wf_array b" "nrows a = nrows b" "ncols a = ncols b"
    and "\<And>j i. j < nrows a \<Longrightarrow> i < ncols a \<Longrightarrow> cells a ! j ! i = cells b ! j ! i"
  shows "a = b"
proof -
  have la: "length (cells a) = nrows a" "\<And>j. j < nrows a \<Longrightarrow> length (cells a ! j) = ncols a"
    using assms(1) by (auto simp: wf_array_def list_all_length)
  have lb: "length (cells b) = nrows b" "\<And>j. j < nrows b \<Longrightarrow> length (cells b ! j) = ncols b"
    using assms(2) by (auto simp: wf_array_def list_all_length)
  have "cells a = cells b"
  proof (rule nth_equalityI)
    show "length (cells a) = length (cells b)" using la lb assms(3) by simp
  next
    fix j assume "j < length (cells a)"
    then have j: "j < nrows a" using la by simp
    show "cells a ! j = cells b ! j"
      by (rule nth_equalityI) (use j la lb assms(3,4,5) in auto)
  qed
  with assms(3,4) show ?thesis by (simp add: ndarray.expand)
qed

lemma original_value_one_colour:
  assumes "wf_game st" "on_grid st p" "c \<noteq> 0" "c \<le> 4"
    and one: "\<And>j i. j < nrows (grid st) \<Longrightarrow> i < ncols (grid st) \<Longrightarrow>
                cells (grid st) ! j ! i = 0 \<or> cells (grid st) ! j ! i = c"
  shows "original_value st p =
           life c (cell st (fst p) (snd p) \<noteq> 0)
             (length (living_neighbors st (fst p) (snd p) neighbor_offsets))"
proof -
  let ?ns = "living_neighbors st (fst p) (snd p) neighbor_offsets"
  have sh: "int (nrows (grid st)) = height st" "int (ncols (grid st)) = width st"
    using assms(1) by (auto simp: wf_game_def)
  have pos: "0 < width st" "0 < height st"
    using assms(2) by (auto simp: on_grid_def)
  have nb: "neighbor_at st (fst p) (snd p) d = 0 \<or> neighbor_at st (fst p) (snd p) d = c" for d
    unfolding neighbor_at_def
    by (rule one) (use sh pos in \<open>auto simp: nat_less_iff\<close>)
  have all: "\<forall>e \<in> set ?ns. e = c"
    using nb by (auto simp: living_neighbors_def)
  have tc: "tally_count ?ns k = (if uint c = k then int (length ?ns) else 0)" for k
  proof -
    have "filter (\<lambda>e. uint e = k) ?ns = (if uint c = k then ?ns else [])"
      using all by (auto simp: filter_empty_conv intro: filter_True)
    then show ?thesis by (simp add: tally_count_def)
  qed
  have uc: "uint c = 1 \<or> uint c = 2 \<or> uint c = 3 \<or> uint c = 4"
    using uint8_colour_cases [OF assms(4,3)] .
  have dom: "get_dominant_color (Dict (tally_dict ?ns)) =
               Inr (if length ?ns = 0 then 1 else uint c)"
    using uc by (auto simp: tally_dict_def dominant_dict_closed tc)
  have cur: "cell st (fst p) (snd p) = 0 \<or> cell st (fst p) (snd p) = c"
    unfolding cell_def
    by (rule one) (use assms(2) sh in \<open>auto simp: on_grid_def nat_less_iff\<close>)
  have cpos: "0 < c" "0 < uint c"
    using assms(3) uc by (auto simp: word_greater_zero_iff)
  from cur show ?thesis
    using cpos assms(3)
    by (auto simp: original_value_def Let_def dom apply_original_conway_rules_def life_def)
qed

lemma near_alive_inside:
  assumes "wf_game st" "p \<in> alive_set (grid st)" "0 \<le> m"
    and "j < nrows (grid st)" "i < ncols (grid st)"
    and "\<bar>int i - int (snd p)\<bar> \<le> m" "\<bar>int j - int (fst p)\<bar> \<le> m"
  shows "inside (grow_and_clamp m (width st) (height st) (tight_box (alive_set (grid st)))) (j, i)"
proof -
  let ?A = "alive_set (grid st)"
  have fin: "finite (snd ` ?A)" "finite (fst ` ?A)"
    using finite_alive_set by auto
  have mem: "snd p \<in> snd ` ?A" "fst p \<in> fst ` ?A"
    using assms(2) by auto
  have "Min (snd ` ?A) \<le> snd p" "snd p \<le> Max (snd ` ?A)"
       "Min (fst ` ?A) \<le> fst p" "fst p \<le> Max (fst ` ?A)"
    using fin mem by (auto intro: Min_le Max_ge)
  moreover have "int i < width st" "int j < height st"
    using assms(1,4,5) by (auto simp: wf_game_def)
  ultimately show ?thesis
    using assms(3,6,7) by (auto simp: inside_def grow_and_clamp_def tight_box_def)
qed

lemma alive_set_painted:
  assumes "c \<noteq> 0"
  shows "alive_set (painted W H P c) = {(j, i). j < H \<and> i < W \<and> P (int i) (int j)}"
  using assms by (auto simp: alive_set_def painted_shape painted_nth split: if_splits)

lemma generation_of_painted:
  assumes "wf_game st" "grid st = painted W H P c" "forced_original st" "rng_ok r"
    and "bounds_margin st = 5" "c \<noteq> 0" "c \<le> 4"
    and some: "0 \<le> xa" "xa < int W" "0 \<le> ya" "ya < int H" "P xa ya"
    and nowrap: "\<And>x y d. 0 \<le> x \<Longrightarrow> x < int W \<Longrightarrow> 0 \<le> y \<Longrightarrow> y < int H \<Longrightarrow>
                   d \<in> set neighbor_offsets \<Longrightarrow>
                   P ((x + fst d) mod int W) ((y + snd d) mod int H) = P (x + fst d) (y + snd d)"
    and rule: "\<And>x y. 0 \<le> x \<Longrightarrow> x < int W \<Longrightarrow> 0 \<le> y \<Longrightarrow> y < int H \<Longrightarrow>
                 life c (P x y) (length (filter (\<lambda>d. P (x + fst d) (y + snd d)) neighbor_offsets))
                   = (if Q x y then c else 0)"
    and near: "\<And>x y. 0 \<le> x \<Longrightarrow> x < int W \<Longrightarrow> 0 \<le> y \<Longrightarrow> y < int H \<Longrightarrow> Q x y \<Longrightarrow>
                 \<exists>x' y'. 0 \<le> x' \<and> x' < int W \<and> 0 \<le> y' \<and> y' < int H \<and> P x' y'
                          \<and> \<bar>x - x'\<bar> \<le> 5 \<and> \<bar>y - y'\<bar> \<le> 5"
  shows "\<exists>n. update st r = Inr ((update_active_bounds st)\<lparr>grid := painted W H Q c\<rparr>, skip n r)"
proof -
  have sh: "nrows (grid st) = H" "ncols (grid st) = W" "width st = int W" "height st = int H"
    using assms(1,2) by (auto simp: wf_game_def painted_shape)
  have col: "colours_ok (grid st)"
    using assms(2,7) by (simp add: painted_colours)
  have A: "alive_set (grid st) = {(j, i). j < H \<and> i < W \<and> P (int i) (int j)}"
    using assms(2,6) by (simp add: alive_set_painted)
  have "(nat ya, nat xa) \<in> alive_set (grid st)"
    using some by (simp add: A nat_less_iff)
  then have ne: "alive_set (grid st) \<noteq> {}" by auto
  let ?B = "grow_and_clamp 5 (width st) (height st) (tight_box (alive_set (grid st)))"
  have B: "active_bounds (update_active_bounds st) = ?B"
    using update_active_bounds_alive [OF assms(1) ne] assms(5) by simp
  from update_forced_original_alive [OF assms(1) col assms(3,4,5) ne]
  obtain g n where run: "update st r = Inr ((update_active_bounds st)\<lparr>grid := g\<rparr>, skip n r)"
    and g: "wf_array g" "nrows g = H" "ncols g = W"
    and pt: "\<And>j i. j < H \<Longrightarrow> i < W \<Longrightarrow>
               cells g ! j ! i =
                 (if inside ?B (j, i) then original_value st (int i, int j)
                  else cells (grid st) ! j ! i)"
    unfolding B sh by blast
  have one: "cells (grid st) ! j ! i = 0 \<or> cells (grid st) ! j ! i = c"
    if "j < nrows (grid st)" "i < ncols (grid st)" for j i
    using that sh by (simp add: assms(2) painted_nth)
  have val: "original_value st (int i, int j) = (if Q (int i) (int j) then c else 0)"
    if "j < H" "i < W" for j i
  proof -
    have on: "on_grid st (int i, int j)"
      using that sh by (simp add: on_grid_def)
    have here: "cell st (int i) (int j) \<noteq> 0 \<longleftrightarrow> P (int i) (int j)"
      using that assms(6) by (simp add: cell_def assms(2) painted_nth)
    have nb: "neighbor_at st (int i) (int j) d \<noteq> 0 \<longleftrightarrow> P (int i + fst d) (int j + snd d)"
      if "d \<in> set neighbor_offsets" for d
    proof -
      have "nat ((int j + snd d) mod int H) < H" "nat ((int i + fst d) mod int W) < W"
        using \<open>j < H\<close> \<open>i < W\<close> by (simp_all add: nat_less_iff)
      then have "neighbor_at st (int i) (int j) d \<noteq> 0 \<longleftrightarrow>
                   P ((int i + fst d) mod int W) ((int j + snd d) mod int H)"
        using assms(6) \<open>j < H\<close> \<open>i < W\<close>
        by (simp add: neighbor_at_def assms(2) painted_nth sh)
      also have "\<dots> \<longleftrightarrow> P (int i + fst d) (int j + snd d)"
        using nowrap [of "int i" "int j" d] that \<open>j < H\<close> \<open>i < W\<close> by simp
      finally show ?thesis .
    qed
    have "length (living_neighbors st (int i) (int j) neighbor_offsets) =
            length (filter (\<lambda>d. neighbor_at st (int i) (int j) d \<noteq> 0) neighbor_offsets)"
      by (simp add: living_neighbors_def filter_map comp_def)
    also have "filter (\<lambda>d. neighbor_at st (int i) (int j) d \<noteq> 0) neighbor_offsets =
                 filter (\<lambda>d. P (int i + fst d) (int j + snd d)) neighbor_offsets"
      by (rule filter_cong) (use nb in auto)
    finally have cnt: "length (living_neighbors st (int i) (int j) neighbor_offsets) =
        length (filter (\<lambda>d. P (int i + fst d) (int j + snd d)) neighbor_offsets)" .
    show ?thesis
      using original_value_one_colour [OF assms(1) on assms(6,7) one]
        rule [of "int i" "int j"] that
      by (simp add: here cnt)
  qed
  have "g = painted W H Q c"
  proof (rule ndarray_eqI)
    fix j i assume "j < nrows g" "i < ncols g"
    then have ji: "j < H" "i < W" using g by auto
    show "cells g ! j ! i = cells (painted W H Q c) ! j ! i"
    proof (cases "inside ?B (j, i)")
      case True
      then show ?thesis
        using pt [OF ji] val [OF ji] ji by (simp add: painted_nth)
    next
      case False
      have nP: "\<not> P (int i) (int j)"
      proof
        assume "P (int i) (int j)"
        then have "(j, i) \<in> alive_set (grid st)" using ji by (simp add: A)
        from inside_grown_box [OF assms(1) this, of 5] False show False by simp
      qed
      have nQ: "\<not> Q (int i) (int j)"
      proof
        assume "Q (int i) (int j)"
        from near [OF _ _ _ _ this] ji obtain x' y' where
          p: "0 \<le> x'" "x' < int W" "0 \<le> y'" "y' < int H" "P x' y'"
            "\<bar>int i - x'\<bar> \<le> 5" "\<bar>int j - y'\<bar> \<le> 5"
          by auto
        have "(nat y', nat x') \<in> alive_set (grid st)"
          using p by (simp add: A nat_less_iff)
        from near_alive_inside [OF assms(1) this, of 5 j i] ji sh p False
        show False by simp
      qed
      show ?thesis
        using pt [OF ji] False nP nQ ji by (simp add: assms(2) painted_nth)
    qed
  qed (use g in \<open>simp_all add: painted_shape\<close>)
  with run show ?thesis by blast
qed

lemma wrap_step:
  fixes y H d :: int
  assumes "0 \<le> y" "y < H" "d = -1 \<or> d = 0 \<or> d = 1"
  shows "(y + d) mod H = (if y + d < 0 then H - 1 else if y + d = H then 0 else y + d)"
proof -
  have H: "0 < H" using assms by linarith
  consider "y + d < 0" | "y + d = H" | "0 \<le> y + d \<and> y + d < H"
    using assms by linarith
  then show ?thesis
  proof cases
    case 1
    then have "y + d = - 1" using assms by linarith
    then show ?thesis using H 1 by (simp add: zmod_minus1)
  next
    case 2
    then show ?thesis using H by simp
  next
    case 3
    then show ?thesis by simp
  qed
qed

lemma neighbor_offsets_steps:
  assumes "d \<in> set neighbor_offsets"
  shows "(fst d = -1 \<or> fst d = 0 \<or> fst d = 1) \<and> (snd d = -1 \<or> snd d = 0 \<or> snd d = 1)"
  using assms by (auto simp: neighbor_offsets_list)

lemma life_row:
  fixes x y X Y :: int
  shows "life c (y = Y \<and> X - 1 \<le> x \<and> x \<le> X + 1)
           (length (filter (\<lambda>d. y + snd d = Y \<and> X - 1 \<le> x + fst d \<and> x + fst d \<le> X + 1)
                      neighbor_offsets))
         = (if x = X \<and> Y - 1 \<le> y \<and> y \<le> Y + 1 then c else 0)"
proof -
  consider "y < Y - 1" | "y = Y - 1" | "y = Y" | "y = Y + 1" | "y > Y + 1" by linarith
  then show ?thesis
  proof cases
    case 1 then show ?thesis by (simp add: neighbor_offsets_list life_def)
  next
    case 5 then show ?thesis by (simp add: neighbor_offsets_list life_def)
  next
    case 2
    consider "x < X - 2" | "x = X - 2" | "x = X - 1" | "x = X" | "x = X + 1" | "x = X + 2" | "x > X + 2"
      by linarith
    then show ?thesis using 2 by cases (simp_all add: neighbor_offsets_list life_def)
  next
    case 3
    consider "x < X - 2" | "x = X - 2" | "x = X - 1" | "x = X" | "x = X + 1" | "x = X + 2" | "x > X + 2"
      by linarith
    then show ?thesis using 3 by cases (simp_all add: neighbor_offsets_list life_def)
  next
    case 4
    consider "x < X - 2" | "x = X - 2" | "x = X - 1" | "x = X" | "x = X + 1" | "x = X + 2" | "x > X + 2"
      by linarith
    then show ?thesis using 4 by cases (simp_all add: neighbor_offsets_list life_def)
  qed
qed

lemma life_column:
  fixes x y X Y :: int
  shows "life c (x = X \<and> Y - 1 \<le> y \<and> y \<le> Y + 1)
           (length (filter (\<lambda>d. x + fst d = X \<and> Y - 1 \<le> y + snd d \<and> y + snd d \<le> Y + 1)
                      neighbor_offsets))
         = (if y = Y \<and> X - 1 \<le> x \<and> x \<le> X + 1 then c else 0)"
proof -
  consider "x < X - 1" | "x = X - 1" | "x = X" | "x = X + 1" | "x > X + 1" by linarith
  then show ?thesis
  proof cases
    case 1 then show ?thesis by (simp add: neighbor_offsets_list life_def)
  next
    case 5 then show ?thesis by (simp add: neighbor_offsets_list life_def)
  next
    case 2
    consider "y < Y - 2" | "y = Y - 2" | "y = Y - 1" | "y = Y" | "y = Y + 1" | "y = Y + 2" | "y > Y + 2"
      by linarith
    then show ?thesis using 2 by cases (simp_all add: neighbor_offsets_list life_def)
  next
    case 3
    consider "y < Y - 2" | "y = Y - 2" | "y = Y - 1" | "y = Y" | "y = Y + 1" | "y = Y + 2" | "y > Y + 2"
      by linarith
    then show ?thesis using 3 by cases (simp_all add: neighbor_offsets_list life_def)
  next
    case 4
    consider "y < Y - 2" | "y = Y - 2" | "y = Y - 1" | "y = Y" | "y = Y + 1" | "y = Y + 2" | "y > Y + 2"
      by linarith
    then show ?thesis using 4 by cases (simp_all add: neighbor_offsets_list life_def)
  qed
qed

lemma row_of_three_no_wrap:
  assumes "2 \<le> x0" "x0 + 2 < int W" "1 \<le> y0" "y0 + 1 < int H"
    and "0 \<le> x" "x < int W" "0 \<le> y" "y < int H" "d \<in> set neighbor_offsets"
  shows "((y + snd d) mod int H = y0 \<and> x0 - 1 \<le> (x + fst d) mod int W
            \<and> (x + fst d) mod int W \<le> x0 + 1)
         = (y + snd d = y0 \<and> x0 - 1 \<le> x + fst d \<and> x + fst d \<le> x0 + 1)"
proof -
  note s = neighbor_offsets_steps [OF assms(9)]
  have "(x + fst d) mod int W =
          (if x + fst d < 0 then int W - 1 else if x + fst d = int W then 0 else x + fst d)"
    using wrap_step [OF assms(5,6)] s by blast
  moreover have "(y + snd d) mod int H =
          (if y + snd d < 0 then int H - 1 else if y + snd d = int H then 0 else y + snd d)"
    using wrap_step [OF assms(7,8)] s by blast
  ultimately show ?thesis
    using assms(1-8) by (auto split: if_splits)
qed

lemma column_of_three_no_wrap:
  assumes "1 \<le> x0" "x0 + 1 < int W" "2 \<le> y0" "y0 + 2 < int H"
    and "0 \<le> x" "x < int W" "0 \<le> y" "y < int H" "d \<in> set neighbor_offsets"
  shows "((x + fst d) mod int W = x0 \<and> y0 - 1 \<le> (y + snd d) mod int H
            \<and> (y + snd d) mod int H \<le> y0 + 1)
         = (x + fst d = x0 \<and> y0 - 1 \<le> y + snd d \<and> y + snd d \<le> y0 + 1)"
proof -
  note s = neighbor_offsets_steps [OF assms(9)]
  have "(x + fst d) mod int W =
          (if x + fst d < 0 then int W - 1 else if x + fst d = int W then 0 else x + fst d)"
    using wrap_step [OF assms(5,6)] s by blast
  moreover have "(y + snd d) mod int H =
          (if y + snd d < 0 then int H - 1 else if y + snd d = int H then 0 else y + snd d)"
    using wrap_step [OF assms(7,8)] s by blast
  ultimately show ?thesis
    using assms(1-8) by (auto split: if_splits)
qed

text \<open>
  Claim C9, as stated, fails for the custom colour rules: an end cell of the row has one
  neighbour, of its own colour, and so survives. With chaos off the row of three becomes
  a plus after one generation and a 3 by 3 block after two, whatever the draws.
\<close>

theorem custom_rules_blinker_does_not_return:
  "\<not> chaos_mode demo_game
   \<and> cells (grid demo_game) =
       [[0, 0, 0, 0, 0], [0, 0, 0, 0, 0], [0, 2, 2, 2, 0], [0, 0, 0, 0, 0], [0, 0, 0, 0, 0]]
   \<and> \<not> isl (update demo_game demo_rng) \<and> \<not> isl (update_twice demo_game demo_rng)
   \<and> cells (grid (fst (projr (update demo_game demo_rng)))) =
       [[0, 0, 0, 0, 0], [0, 0, 2, 0, 0], [0, 2, 2, 2, 0], [0, 0, 2, 0, 0], [0, 0, 0, 0, 0]]
   \<and> cells (grid (fst (projr (update_twice demo_game demo_rng)))) =
       [[0, 0, 0, 0, 0], [0, 2, 2, 2, 0], [0, 2, 2, 2, 0], [0, 2, 2, 2, 0], [0, 0, 0, 0, 0]]"
  by code_simp

text \<open>
  Claim C9, amended. On the original rule path (chaos on with both probabilities 0, so
  that every cell takes the original branch, and draws in \<open>[0, 1)\<close>), a row of three cells
  of one colour 1 to 4 on an otherwise Dead grid, with at least one Dead column and row
  between the 3 by 3 square around it and every edge, becomes the column of three after
  one \<open>update\<close>, which differs from it, and is back after the second.
\<close>

theorem blinker_returns_after_two_original_generations:
  assumes "wf_game st" "grid st = row_of_three W H x0 y0 c" "forced_original st"
    and "bounds_margin st = 5" "rng_ok r" "c \<noteq> 0" "c \<le> 4"
    and "2 \<le> x0" "x0 + 2 < int W" "2 \<le> y0" "y0 + 2 < int H"
  shows "\<exists>st1 r1 st2 r2.
           update st r = Inr (st1, r1) \<and> grid st1 = column_of_three W H x0 y0 c
           \<and> grid st1 \<noteq> grid st
           \<and> update st1 r1 = Inr (st2, r2) \<and> grid st2 = grid st"
proof -
  let ?P = "\<lambda>x y. y = y0 \<and> x0 - 1 \<le> x \<and> x \<le> x0 + 1"
  let ?Q = "\<lambda>x y. x = x0 \<and> y0 - 1 \<le> y \<and> y \<le> y0 + 1"
  have g0: "grid st = painted W H ?P c"
    using assms(2) by (simp add: row_of_three_def)
  have sz: "width st = int W" "height st = int H"
    using assms(1) g0 by (auto simp: wf_game_def painted_shape)
  have "\<exists>n. update st r = Inr ((update_active_bounds st)\<lparr>grid := painted W H ?Q c\<rparr>, skip n r)"
  proof (rule generation_of_painted [OF assms(1) g0 assms(3,5,4,6,7), of x0 y0 ?Q])
    show "0 \<le> x0" "x0 < int W" "0 \<le> y0" "y0 < int H" "y0 = y0 \<and> x0 - 1 \<le> x0 \<and> x0 \<le> x0 + 1"
      using assms(8-11) by auto
  next
    fix x y d
    assume "0 \<le> x" "x < int W" "0 \<le> y" "y < int H" "d \<in> set neighbor_offsets"
    then show "((y + snd d) mod int H = y0 \<and> x0 - 1 \<le> (x + fst d) mod int W
                  \<and> (x + fst d) mod int W \<le> x0 + 1)
               = (y + snd d = y0 \<and> x0 - 1 \<le> x + fst d \<and> x + fst d \<le> x0 + 1)"
      using row_of_three_no_wrap [of x0 W y0 H x y d] assms(8-11) by simp
  next
    fix x y :: int
    show "life c (y = y0 \<and> x0 - 1 \<le> x \<and> x \<le> x0 + 1)
            (length (filter (\<lambda>d. y + snd d = y0 \<and> x0 - 1 \<le> x + fst d \<and> x + fst d \<le> x0 + 1)
                       neighbor_offsets))
          = (if x = x0 \<and> y0 - 1 \<le> y \<and> y \<le> y0 + 1 then c else 0)"
      by (rule life_row)
  next
    fix x y :: int
    assume "x = x0 \<and> y0 - 1 \<le> y \<and> y \<le> y0 + 1"
    then show "\<exists>x' y'. 0 \<le> x' \<and> x' < int W \<and> 0 \<le> y' \<and> y' < int H
                 \<and> (y' = y0 \<and> x0 - 1 \<le> x' \<and> x' \<le> x0 + 1) \<and> \<bar>x - x'\<bar> \<le> 5 \<and> \<bar>y - y'\<bar> \<le> 5"
      using assms(8-11) by (intro exI [of _ x0] exI [of _ y0]) auto
  qed
  then obtain n1 where u1:
    "update st r = Inr ((update_active_bounds st)\<lparr>grid := painted W H ?Q c\<rparr>, skip n1 r)"
    by blast
  let ?st1 = "(update_active_bounds st)\<lparr>grid := painted W H ?Q c\<rparr>"
  have wf1: "wf_game ?st1"
    using sz by (simp add: wf_game_def painted_shape update_active_bounds_fields)
  have g1: "grid ?st1 = painted W H ?Q c" by simp
  have f1: "forced_original ?st1" "bounds_margin ?st1 = 5" "rng_ok (skip n1 r)"
    using assms(3,4,5)
    by (simp_all add: forced_original_def update_active_bounds_fields rng_ok_skip)
  have "\<exists>n. update ?st1 (skip n1 r) =
              Inr ((update_active_bounds ?st1)\<lparr>grid := painted W H ?P c\<rparr>, skip n (skip n1 r))"
  proof (rule generation_of_painted [OF wf1 g1 f1(1,3,2) assms(6,7), of x0 y0 ?P])
    show "0 \<le> x0" "x0 < int W" "0 \<le> y0" "y0 < int H" "x0 = x0 \<and> y0 - 1 \<le> y0 \<and> y0 \<le> y0 + 1"
      using assms(8-11) by auto
  next
    fix x y d
    assume "0 \<le> x" "x < int W" "0 \<le> y" "y < int H" "d \<in> set neighbor_offsets"
    then show "((x + fst d) mod int W = x0 \<and> y0 - 1 \<le> (y + snd d) mod int H
                  \<and> (y + snd d) mod int H \<le> y0 + 1)
               = (x + fst d = x0 \<and> y0 - 1 \<le> y + snd d \<and> y + snd d \<le> y0 + 1)"
      using column_of_three_no_wrap [of x0 W y0 H x y d] assms(8-11) by simp
  next
    fix x y :: int
    show "life c (x = x0 \<and> y0 - 1 \<le> y \<and> y \<le> y0 + 1)
            (length (filter (\<lambda>d. x + fst d = x0 \<and> y0 - 1 \<le> y + snd d \<and> y + snd d \<le> y0 + 1)
                       neighbor_offsets))
          = (if y = y0 \<and> x0 - 1 \<le> x \<and> x \<le> x0 + 1 then c else 0)"
      by (rule life_column)
  next
    fix x y :: int
    assume "y = y0 \<and> x0 - 1 \<le> x \<and> x \<le> x0 + 1"
    then show "\<exists>x' y'. 0 \<le> x' \<and> x' < int W \<and> 0 \<le> y' \<and> y' < int H
                 \<and> (x' = x0 \<and> y0 - 1 \<le> y' \<and> y' \<le> y0 + 1) \<and> \<bar>x - x'\<bar> \<le> 5 \<and> \<bar>y - y'\<bar> \<le> 5"
      using assms(8-11) by (intro exI [of _ x0] exI [of _ y0]) auto
  qed
  then obtain n2 where u2:
    "update ?st1 (skip n1 r) =
       Inr ((update_active_bounds ?st1)\<lparr>grid := painted W H ?P c\<rparr>, skip n2 (skip n1 r))"
    by blast
  have ne: "painted W H ?Q c \<noteq> painted W H ?P c"
  proof
    assume eq: "painted W H ?Q c = painted W H ?P c"
    have i: "nat y0 < H" "nat (x0 + 1) < W"
      using assms(8-11) by auto
    have "cells (painted W H ?Q c) ! nat y0 ! nat (x0 + 1) = 0"
      "cells (painted W H ?P c) ! nat y0 ! nat (x0 + 1) = c"
      using i assms(8-11) by (simp_all add: painted_nth)
    with eq assms(6) show False by simp
  qed
  show ?thesis
    using u1 u2 ne g0
    by (intro exI [of _ ?st1] exI [of _ "skip n1 r"]
          exI [of _ "(update_active_bounds ?st1)\<lparr>grid := painted W H ?P c\<rparr>"]
          exI [of _ "skip n2 (skip n1 r)"])
       (simp add: column_of_three_def)
qed

theorem blinker_returns_after_two_original_generations_witness:
  "wf_game forced_game \<and> grid forced_game = row_of_three 5 5 2 2 2
   \<and> forced_original forced_game \<and> bounds_margin forced_game = 5 \<and> rng_ok demo_rng
   \<and> (\<exists>st1 r1 st2 r2.
         update forced_game demo_rng = Inr (st1, r1) \<and> grid st1 = column_of_three 5 5 2 2 2
         \<and> grid st1 \<noteq> grid forced_game
         \<and> update st1 r1 = Inr (st2, r2) \<and> grid st2 = grid forced_game)"
proof -
  have w: "wf_game forced_game"
    by (simp add: wf_game_def wf_array_def forced_game_def demo_game_def)
  have g: "grid forced_game = row_of_three 5 5 2 2 2"
    by code_simp
  have f: "forced_original forced_game" "bounds_margin forced_game = 5"
    by (simp_all add: forced_original_def forced_game_def demo_game_def)
  have r: "rng_ok demo_rng"
    by (simp add: rng_ok_def demo_rng_def)
  from blinker_returns_after_two_original_generations [OF w g f r, of]
  show ?thesis using w g f r by simp
qed

subsection \<open>The Mandelbrot seed generator\<close>

lemma mandelbrot_loop_find:
  "mandelbrot_loop ops c (orbit ops c k) [k..<m] max_iter =
     (case find (\<lambda>n. overflows ops (orbit ops c n) \<or> escaped ops (orbit ops c n)) [k..<m] of
        None \<Rightarrow> Inr max_iter
      | Some n \<Rightarrow> if overflows ops (orbit ops c n) then Inl OverflowError else Inr (int n))"
proof (induction "m - k" arbitrary: k)
  case 0
  then show ?case by simp
next
  case (Suc d)
  then have k: "k < m" and d: "d = m - Suc k" by auto
  have nxt: "c_add ops (c_mul ops (orbit ops c k) (orbit ops c k)) c = orbit ops c (Suc k)"
    by (simp add: orbit_def)
  show ?case
  proof (cases "c_abs ops (orbit ops c k)")
    case None
    then show ?thesis
      using k by (simp add: upt_conv_Cons overflows_def)
  next
    case (Some a)
    then show ?thesis
      using Suc.hyps(1) [OF d] k
      by (simp add: upt_conv_Cons nxt overflows_def escaped_def)
  qed
qed

lemma mandelbrot_iteration_escape:
  "mandelbrot_iteration ops c max_iter = escape_iteration ops c max_iter"
  using mandelbrot_loop_find [of ops c 0 "nat max_iter" max_iter]
  by (simp add: mandelbrot_iteration_def escape_iteration_def orbit_def)

lemma escape_iteration_error:
  "escape_iteration ops c max_iter = Inl e \<Longrightarrow> e = OverflowError"
  by (auto simp: escape_iteration_def split: option.splits if_splits)

lemma escape_iteration_first:
  "(case escape_iteration ops c max_iter of
      Inl e \<Rightarrow>
        e = OverflowError
        \<and> (\<exists>n < nat max_iter. overflows ops (orbit ops c n)
              \<and> (\<forall>k < n. \<not> overflows ops (orbit ops c k) \<and> \<not> escaped ops (orbit ops c k)))
    | Inr m \<Rightarrow>
        (m = max_iter
         \<and> (\<forall>k < nat max_iter. \<not> overflows ops (orbit ops c k) \<and> \<not> escaped ops (orbit ops c k)))
        \<or> (\<exists>n < nat max_iter. m = int n \<and> escaped ops (orbit ops c n)
              \<and> (\<forall>k < n. \<not> overflows ops (orbit ops c k) \<and> \<not> escaped ops (orbit ops c k))))"
proof (cases "find (\<lambda>n. overflows ops (orbit ops c n) \<or> escaped ops (orbit ops c n))
                [0..<nat max_iter]")
  case None
  then have "escape_iteration ops c max_iter = Inr max_iter"
    by (simp add: escape_iteration_def)
  moreover have "\<forall>k < nat max_iter.
      \<not> overflows ops (orbit ops c k) \<and> \<not> escaped ops (orbit ops c k)"
    using None by (simp add: find_None_iff)
  ultimately show ?thesis by simp
next
  case (Some n)
  then have n: "n < nat max_iter"
    "overflows ops (orbit ops c n) \<or> escaped ops (orbit ops c n)"
    "\<forall>k < n. \<not> overflows ops (orbit ops c k) \<and> \<not> escaped ops (orbit ops c k)"
    by (auto simp: find_Some_iff)
  show ?thesis
  proof (cases "overflows ops (orbit ops c n)")
    case True
    then have "escape_iteration ops c max_iter = Inl OverflowError"
      using Some by (simp add: escape_iteration_def)
    with True n show ?thesis by auto
  next
    case False
    then have "escape_iteration ops c max_iter = Inr (int n)"
      using Some by (simp add: escape_iteration_def)
    with False n show ?thesis by auto
  qed
qed

lemma for_each_cong:
  assumes "\<And>a s. a \<in> set xs \<Longrightarrow> f a s = f' a s"
  shows "for_each f xs s = for_each f' xs s"
  using assms by (induction xs arbitrary: s) (auto split: sum.splits)

lemma mark_all:
  assumes "wf_array a"
    and "\<forall>p \<in> set ps. 0 \<le> snd p \<and> snd p < int (nrows a) \<and> 0 \<le> fst p \<and> fst p < int (ncols a)"
  shows "\<exists>g. for_each (\<lambda>p g. if A p then np_set g (snd p) (fst p) v else Inr g) ps a = Inr g
           \<and> wf_array g \<and> nrows g = nrows a \<and> ncols g = ncols a
           \<and> (\<forall>j < nrows a. \<forall>i < ncols a.
                 cells g ! j ! i = (if (int i, int j) \<in> set ps \<and> A (int i, int j) then v
                                    else cells a ! j ! i))"
  using assms
proof (induction ps arbitrary: a)
  case Nil
  then show ?case by simp
next
  case (Cons p ps)
  let ?a = "if A p then put a p v else a"
  have inr: "0 \<le> snd p" "snd p < int (nrows a)" "0 \<le> fst p" "fst p < int (ncols a)"
    using Cons.prems(2) by auto
  have step: "(if A p then np_set a (snd p) (fst p) v else Inr a) = Inr ?a"
    using np_set_inside [OF inr] by simp
  have a': "wf_array ?a" "nrows ?a = nrows a" "ncols ?a = ncols a"
    using Cons.prems(1) by (simp_all add: put_wf put_shape)
  have here: "cells ?a ! j ! i = (if p = (int i, int j) \<and> A p then v else cells a ! j ! i)"
    if "j < nrows a" "i < ncols a" for j i
    using put_nth [OF Cons.prems(1) that inr, of v] by (cases "A p") simp_all
  from Cons.IH [of ?a] a' Cons.prems(2)
  obtain g where g: "for_each (\<lambda>p g. if A p then np_set g (snd p) (fst p) v else Inr g) ps ?a = Inr g"
    "wf_array g" "nrows g = nrows a" "ncols g = ncols a"
    and pt: "\<And>j i. j < nrows a \<Longrightarrow> i < ncols a \<Longrightarrow>
               cells g ! j ! i = (if (int i, int j) \<in> set ps \<and> A (int i, int j) then v
                                  else cells ?a ! j ! i)"
    by auto
  have "cells g ! j ! i = (if (int i, int j) \<in> set (p # ps) \<and> A (int i, int j) then v
                           else cells a ! j ! i)"
    if "j < nrows a" "i < ncols a" for j i
    using pt [OF that] here [OF that] by auto
  with g show ?case
    by (intro exI [of _ g]) (simp add: step)
qed

lemma for_each_raises:
  assumes "wf_array a"
    and "\<forall>p \<in> set ps. 0 \<le> snd p \<and> snd p < int (nrows a) \<and> 0 \<le> fst p \<and> fst p < int (ncols a)"
    and "\<exists>p \<in> set ps. isl (E p)"
    and "\<And>p e. E p = Inl e \<Longrightarrow> e = OverflowError"
  shows "for_each (\<lambda>p g. case E p of
                           Inl e \<Rightarrow> Inl e
                         | Inr n \<Rightarrow> if n < t then np_set g (snd p) (fst p) v else Inr g) ps a
         = Inl OverflowError"
  using assms(1,2,3)
proof (induction ps arbitrary: a)
  case Nil
  then show ?case by simp
next
  case (Cons p ps)
  show ?case
  proof (cases "E p")
    case (Inl e)
    then show ?thesis using assms(4) [of p e] by simp
  next
    case (Inr n)
    let ?a = "if n < t then put a p v else a"
    have inr: "0 \<le> snd p" "snd p < int (nrows a)" "0 \<le> fst p" "fst p < int (ncols a)"
      using Cons.prems(2) by auto
    have step: "(if n < t then np_set a (snd p) (fst p) v else Inr a) = Inr ?a"
      using np_set_inside [OF inr] by simp
    have a': "wf_array ?a" "nrows ?a = nrows a" "ncols ?a = ncols a"
      using Cons.prems(1) by (simp_all add: put_wf put_shape)
    have rest: "\<exists>q \<in> set ps. isl (E q)"
      using Cons.prems(3) Inr by auto
    show ?thesis
      using Cons.IH [of ?a] a' Cons.prems(2) rest
      by (simp add: Inr step)
  qed
qed

text \<open>
  Claim C10, as stated, fails where \<open>abs(z)\<close> overflows: the generator then raises
  \<open>OverflowError\<close> and marks no cell. For the one pixel of a 1 by 1 grid whose bounds are all
  \<open>1.5 \<times> 2\<^sup>1\<^sup>0\<^sup>2\<^sup>3\<close>, the point is \<open>c = huge + huge i\<close>, \<open>z\<^sub>1 = c\<close>, and the modulus of \<open>z\<^sub>1\<close>
  is above the largest double (every value of this run is a double, so the source computes
  the same).
\<close>

theorem generate_mandelbrot_grid_overflow:
  "generate_mandelbrot_grid checked_arith 1 1 huge huge huge huge 2 1 = Inl OverflowError"
proof -
  have "max_double\<^sup>2 < huge\<^sup>2 + huge\<^sup>2"
    by (simp add: max_double_def huge_def)
  then have "max_double < sqrt (huge\<^sup>2 + huge\<^sup>2)"
    by (rule real_less_rsqrt)
  then have big: "max_double < cmod (Complex huge huge)"
    by (simp add: cmod_def)
  have small: "\<not> max_double < 0"
    by (simp add: max_double_def)
  have "mandelbrot_iteration checked_arith (Complex huge huge) 2 = Inl OverflowError"
    using big small
    by (simp add: mandelbrot_iteration_def checked_arith_def numeral_2_eq_2 upt_conv_Cons)
  then show ?thesis
    by (simp add: generate_mandelbrot_grid_def np_zeros_int_def mandelbrot_pixel_def
        checked_arith_def)
qed

text \<open>
  Claim C10, amended. \<open>generate_mandelbrot_grid\<close> reads no state and no random source:
  it is a function of its arguments. For sizes that are not negative: when \<open>abs\<close>
  overflows on the walk of some pixel it raises \<open>OverflowError\<close>; otherwise it returns a
  grid of that shape in which the cell of every pixel \<open>(x, y)\<close> is 1 when the escape
  iteration of the point
  \<open>c = x_min + (x / w) (x_max - x_min) + i (y_min + (y / h) (y_max - y_min))\<close> is
  below the threshold and 0 otherwise. The escape iteration is the first \<open>n\<close> below
  \<open>max_iter\<close> with \<open>|z\<^sub>n| > 2\<close> on the orbit \<open>z\<^sub>0 = 0\<close>, \<open>z\<^bsub>n+1\<^esub> = z\<^sub>n\<^sup>2 + c\<close>, or
  \<open>max_iter\<close> when there is none; the walk fails when it meets an overflow of \<open>abs\<close> first.
\<close>

theorem generate_mandelbrot_grid_cells:
  assumes "0 \<le> w" "0 \<le> h"
  shows "(if \<exists>x y. 0 \<le> x \<and> x < w \<and> 0 \<le> y \<and> y < h
                 \<and> isl (escape_iteration ops
                           (pixel_point ops w h x_min x_max y_min y_max x y) max_iter)
          then generate_mandelbrot_grid ops w h x_min x_max y_min y_max max_iter threshold
                 = Inl OverflowError
          else \<exists>g. generate_mandelbrot_grid ops w h x_min x_max y_min y_max max_iter threshold
                      = Inr g
                 \<and> wf_array g \<and> int (nrows g) = h \<and> int (ncols g) = w
                 \<and> (\<forall>x y. 0 \<le> x \<and> x < w \<and> 0 \<le> y \<and> y < h \<longrightarrow>
                       cells g ! nat y ! nat x =
                         (if projr (escape_iteration ops
                                      (pixel_point ops w h x_min x_max y_min y_max x y) max_iter)
                               < threshold
                          then 1 else 0)))
         \<and> (case escape_iteration ops c max_iter of
               Inl e \<Rightarrow>
                 e = OverflowError
                 \<and> (\<exists>n < nat max_iter. overflows ops (orbit ops c n)
                       \<and> (\<forall>k < n. \<not> overflows ops (orbit ops c k)
                                   \<and> \<not> escaped ops (orbit ops c k)))
             | Inr m \<Rightarrow>
                 (m = max_iter
                  \<and> (\<forall>k < nat max_iter. \<not> overflows ops (orbit ops c k)
                                           \<and> \<not> escaped ops (orbit ops c k)))
                 \<or> (\<exists>n < nat max_iter. m = int n \<and> escaped ops (orbit ops c n)
                       \<and> (\<forall>k < n. \<not> overflows ops (orbit ops c k)
                                   \<and> \<not> escaped ops (orbit ops c k))))"
proof -
  let ?z = "NDArray (nat h) (nat w) (replicate (nat h) (replicate (nat w) (0 :: int)))"
  let ?ps = "[(x, y). y \<leftarrow> [0..h - 1], x \<leftarrow> [0..w - 1]]"
  let ?E = "\<lambda>p. escape_iteration ops
                   (pixel_point ops w h x_min x_max y_min y_max (fst p) (snd p)) max_iter"
  let ?A = "\<lambda>p. projr (?E p) < threshold"
  let ?G = "generate_mandelbrot_grid ops w h x_min x_max y_min y_max max_iter threshold"
  have z: "np_zeros_int h w = Inr ?z"
    using assms by (simp add: np_zeros_int_def)
  have wfz: "wf_array ?z" "nrows ?z = nat h" "ncols ?z = nat w"
    by (simp_all add: wf_array_def list_all_iff)
  have body: "mandelbrot_pixel ops w h x_min x_max y_min y_max max_iter threshold =
                (\<lambda>p g. case ?E p of
                          Inl e \<Rightarrow> Inl e
                        | Inr n \<Rightarrow> if n < threshold then np_set g (snd p) (fst p) 1 else Inr g)"
    by (intro ext)
      (simp add: mandelbrot_pixel_def Let_def mandelbrot_iteration_escape pixel_point_def)
  have ps: "\<forall>p \<in> set ?ps. 0 \<le> snd p \<and> snd p < int (nrows ?z) \<and> 0 \<le> fst p \<and> fst p < int (ncols ?z)"
    by auto
  have mem: "p \<in> set ?ps \<longleftrightarrow> 0 \<le> fst p \<and> fst p < w \<and> 0 \<le> snd p \<and> snd p < h" for p
    by (cases p) force
  have run: "?G = for_each (\<lambda>p g. case ?E p of
                                      Inl e \<Rightarrow> Inl e
                                    | Inr n \<Rightarrow> if n < threshold then np_set g (snd p) (fst p) 1
                                               else Inr g) ?ps ?z"
    by (simp add: generate_mandelbrot_grid_def z body)
  have first: "?thesis" if main:
    "if \<exists>x y. 0 \<le> x \<and> x < w \<and> 0 \<le> y \<and> y < h
               \<and> isl (escape_iteration ops
                         (pixel_point ops w h x_min x_max y_min y_max x y) max_iter)
     then ?G = Inl OverflowError
     else \<exists>g. ?G = Inr g \<and> wf_array g \<and> int (nrows g) = h \<and> int (ncols g) = w
            \<and> (\<forall>x y. 0 \<le> x \<and> x < w \<and> 0 \<le> y \<and> y < h \<longrightarrow>
                  cells g ! nat y ! nat x =
                    (if projr (escape_iteration ops
                                 (pixel_point ops w h x_min x_max y_min y_max x y) max_iter)
                          < threshold
                     then 1 else 0))"
    using main escape_iteration_first [where ops = ops and c = c and max_iter = max_iter] by (rule conjI)
  show ?thesis
  proof (rule first, cases "\<exists>x y. 0 \<le> x \<and> x < w \<and> 0 \<le> y \<and> y < h
               \<and> isl (escape_iteration ops
                         (pixel_point ops w h x_min x_max y_min y_max x y) max_iter)")
    case True
    then have ex: "\<exists>p \<in> set ?ps. isl (?E p)"
      unfolding mem by force
    have "?G = Inl OverflowError"
      unfolding run
      by (rule for_each_raises [OF wfz(1) ps ex]) (rule escape_iteration_error)
    with True show "if \<exists>x y. 0 \<le> x \<and> x < w \<and> 0 \<le> y \<and> y < h
               \<and> isl (escape_iteration ops
                         (pixel_point ops w h x_min x_max y_min y_max x y) max_iter)
     then ?G = Inl OverflowError
     else \<exists>g. ?G = Inr g \<and> wf_array g \<and> int (nrows g) = h \<and> int (ncols g) = w
            \<and> (\<forall>x y. 0 \<le> x \<and> x < w \<and> 0 \<le> y \<and> y < h \<longrightarrow>
                  cells g ! nat y ! nat x =
                    (if projr (escape_iteration ops
                                 (pixel_point ops w h x_min x_max y_min y_max x y) max_iter)
                          < threshold
                     then 1 else 0))"
      by simp
  next
    case False
    then have ok: "\<not> isl (?E p)" if "p \<in> set ?ps" for p
      using that unfolding mem by (cases p) auto
    have "for_each (\<lambda>p g. case ?E p of
                             Inl e \<Rightarrow> Inl e
                           | Inr n \<Rightarrow> if n < threshold then np_set g (snd p) (fst p) 1 else Inr g)
            ?ps ?z
          = for_each (\<lambda>p g. if ?A p then np_set g (snd p) (fst p) 1 else Inr g) ?ps ?z"
    proof (rule for_each_cong)
      fix p g assume "p \<in> set ?ps"
      from ok [OF this] show "(case ?E p of
                                 Inl e \<Rightarrow> Inl e
                               | Inr n \<Rightarrow> if n < threshold then np_set g (snd p) (fst p) 1
                                          else Inr g)
                              = (if ?A p then np_set g (snd p) (fst p) 1 else Inr g)"
        by (cases "?E p") auto
    qed
    with mark_all [OF wfz(1) ps, of ?A 1] run
    obtain g where g: "?G = Inr g" "wf_array g" "nrows g = nat h" "ncols g = nat w"
      and pt: "\<And>j i. j < nat h \<Longrightarrow> i < nat w \<Longrightarrow>
                 cells g ! j ! i = (if (int i, int j) \<in> set ?ps \<and> ?A (int i, int j) then 1
                                    else cells ?z ! j ! i)"
      by auto
    have "cells g ! nat y ! nat x =
            (if projr (escape_iteration ops
                         (pixel_point ops w h x_min x_max y_min y_max x y) max_iter) < threshold
             then 1 else 0)"
      if "0 \<le> x" "x < w" "0 \<le> y" "y < h" for x y
      using pt [of "nat y" "nat x"] that mem [of "(x, y)"] by simp
    with g assms False
    show "if \<exists>x y. 0 \<le> x \<and> x < w \<and> 0 \<le> y \<and> y < h
               \<and> isl (escape_iteration ops
                         (pixel_point ops w h x_min x_max y_min y_max x y) max_iter)
     then ?G = Inl OverflowError
     else \<exists>g. ?G = Inr g \<and> wf_array g \<and> int (nrows g) = h \<and> int (ncols g) = w
            \<and> (\<forall>x y. 0 \<le> x \<and> x < w \<and> 0 \<le> y \<and> y < h \<longrightarrow>
                  cells g ! nat y ! nat x =
                    (if projr (escape_iteration ops
                                 (pixel_point ops w h x_min x_max y_min y_max x y) max_iter)
                          < threshold
                     then 1 else 0))"
      by (simp only: if_False) (intro exI [of _ g], simp)
  qed
qed

theorem generate_mandelbrot_grid_cells_witness:
  "(0 :: int) \<le> 1
   \<and> escape_iteration checked_arith (Complex (- 5 / 2) (- 3 / 2)) 30 = Inr 1
   \<and> (\<exists>g. generate_mandelbrot_grid checked_arith 1 1 (- 5 / 2) 1 (- 3 / 2) (3 / 2) 30 8 = Inr g
          \<and> cells g ! 0 ! 0 = 1)"
proof -
  let ?P = "\<lambda>x y. pixel_point checked_arith 1 1 (- 5 / 2) 1 (- 3 / 2) (3 / 2) x y"
  let ?C = "Complex (- 5 / 2) (- 3 / 2)"
  have c: "?P 0 0 = ?C"
    by (simp add: pixel_point_def checked_arith_def)
  have lo: "(2 :: real) < sqrt (17 / 2)"
    by (rule real_less_rsqrt) simp
  have "sqrt (17 / 2) \<le> 3"
    by (rule real_le_lsqrt) simp_all
  moreover have "3 \<le> max_double"
    by (simp add: max_double_def)
  ultimately have hi: "\<not> max_double < sqrt (17 / 2)"
    by simp
  have zero: "\<not> max_double < 0"
    by (simp add: max_double_def)
  have m: "cmod ?C = sqrt (17 / 2)"
    by (simp add: cmod_def power2_eq_square)
  have l: "[0..<nat 30] = 0 # Suc 0 # [2..<30]"
    by (simp add: upt_conv_Cons)
  have a0: "c_abs checked_arith (c_zero checked_arith) = Some 0"
    using zero by (simp add: checked_arith_def)
  have g0: "\<not> gt_int checked_arith 0 2"
    by (simp add: checked_arith_def)
  have z1: "c_add checked_arith (c_mul checked_arith (c_zero checked_arith) (c_zero checked_arith)) ?C
              = ?C"
    by (simp add: checked_arith_def)
  have a1: "c_abs checked_arith ?C = Some (sqrt (17 / 2))"
    using hi by (simp only: checked_arith_def arith.select_convs m if_False)
  have g1: "gt_int checked_arith (sqrt (17 / 2)) 2"
    using lo by (simp add: checked_arith_def)
  have "mandelbrot_iteration checked_arith ?C 30 = Inr (int (Suc 0))"
    unfolding mandelbrot_iteration_def l
    by (simp only: mandelbrot_loop.simps a0 g0 z1 a1 g1 option.case if_True if_False)
  then have ei: "escape_iteration checked_arith ?C 30 = Inr 1"
    by (simp add: mandelbrot_iteration_escape)
  have none: "\<not> (\<exists>x y. 0 \<le> x \<and> x < 1 \<and> 0 \<le> y \<and> y < 1
                     \<and> isl (escape_iteration checked_arith (?P x y) 30))"
  proof
    assume "\<exists>x y. 0 \<le> x \<and> x < 1 \<and> 0 \<le> y \<and> y < 1
                     \<and> isl (escape_iteration checked_arith (?P x y) 30)"
    then obtain x y :: int where "0 \<le> x" "x < 1" "0 \<le> y" "y < 1"
      and l: "isl (escape_iteration checked_arith (?P x y) 30)"
      by blast
    then have "x = 0" "y = 0" by simp_all
    with l have "isl (escape_iteration checked_arith (?P 0 0) 30)"
      by simp
    then show False
      by (simp only: c ei sum.disc)
  qed
  have "(0 :: int) \<le> 1" by simp
  from generate_mandelbrot_grid_cells
         [where w = 1 and h = 1 and ops = checked_arith and x_min = "- 5 / 2" and x_max = 1
            and y_min = "- 3 / 2" and y_max = "3 / 2" and max_iter = 30 and threshold = 8
            and c = 0, OF this this]
  have "if \<exists>x y. 0 \<le> x \<and> x < 1 \<and> 0 \<le> y \<and> y < 1
                 \<and> isl (escape_iteration checked_arith (?P x y) 30)
        then generate_mandelbrot_grid checked_arith 1 1 (- 5 / 2) 1 (- 3 / 2) (3 / 2) 30 8
               = Inl OverflowError
        else \<exists>g. generate_mandelbrot_grid checked_arith 1 1 (- 5 / 2) 1 (- 3 / 2) (3 / 2) 30 8
                    = Inr g
               \<and> wf_array g \<and> int (nrows g) = 1 \<and> int (ncols g) = 1
               \<and> (\<forall>x y. 0 \<le> x \<and> x < 1 \<and> 0 \<le> y \<and> y < 1 \<longrightarrow>
                     cells g ! nat y ! nat x =
                       (if projr (escape_iteration checked_arith (?P x y) 30) < 8
                        then 1 else 0))"
    by (rule conjunct1)
  with none have "\<exists>g. generate_mandelbrot_grid checked_arith 1 1 (- 5 / 2) 1 (- 3 / 2) (3 / 2) 30 8
                    = Inr g
               \<and> wf_array g \<and> int (nrows g) = 1 \<and> int (ncols g) = 1
               \<and> (\<forall>x y. 0 \<le> x \<and> x < 1 \<and> 0 \<le> y \<and> y < 1 \<longrightarrow>
                     cells g ! nat y ! nat x =
                       (if projr (escape_iteration checked_arith (?P x y) 30) < 8
                        then 1 else 0))"
    by (simp only: if_False)
  then obtain g
    where run: "generate_mandelbrot_grid checked_arith 1 1 (- 5 / 2) 1 (- 3 / 2) (3 / 2) 30 8
                  = Inr g"
      and cell: "\<forall>x y. 0 \<le> x \<and> x < 1 \<and> 0 \<le> y \<and> y < 1 \<longrightarrow>
                   cells g ! nat y ! nat x =
                     (if projr (escape_iteration checked_arith (?P x y) 30) < 8 then 1 else 0)"
    by blast
  from cell have "cells g ! nat 0 ! nat 0 =
                    (if projr (escape_iteration checked_arith (?P 0 0) 30) < 8 then 1 else 0)"
    by simp
  then have "cells g ! 0 ! 0 = 1"
    by (simp only: c ei sum.sel nat_0) simp
  with run ei show ?thesis by simp
qed

end
